theory Spec2Isabelle
  imports Complex_Main "HOL-Library.Word" "HOL-Library.Sublist" "HOL-Library.Multiset"
  "HOL-Library.Log_Nat" "HOL-Library.Monad_Syntax"
begin

section \<open>PageFaultStat: the sampling, delta and dump engine\<close>

text \<open>
  A shallow embedding of the C core of PageFaultStat: the numeric formatter and the
  process-name comparison of \<^verbatim>\<open>utils.c\<close>, the two hash caches of \<^verbatim>\<open>cache.c\<close>,
  the delta engine and the three dump routines of the fault-handling unit, and the wait
  computation of the main loop.  C integers of a fixed width are words; \<^verbatim>\<open>int64_t\<close>
  values are read with \<open>sint\<close> wherever the source compares them.
\<close>

type_synonym int64 = "64 word"
type_synonym pid_t = "32 word"
type_synonym uid_t = "32 word"
type_synonym addr = nat

subsection \<open>Double-precision arithmetic\<close>

text \<open>
  A C \<^verbatim>\<open>double\<close> is an IEEE 754 binary64 number.  Its finite values are the rationals
  \<open>m * 2^k\<close> with \<open>\<bar>m\<bar> < 2^53\<close> and \<open>k \<ge> -1074\<close> of magnitude below \<open>2^1024\<close>.  Every
  arithmetic operation of the source on doubles is the exact operation on the values
  followed by rounding to the nearest double, ties to the even significand; this is the
  default rounding mode, with each operation evaluated in double precision and no fused
  multiply-add, as on x86-64.

  \<open>ilog2 x\<close> is the position of the leading bit of a positive \<open>x\<close>, that is
  \<open>2^(ilog2 x) \<le> x < 2^(ilog2 x + 1)\<close>.  \<open>quantum_exp x\<close> is the exponent of the unit
  in the last place at \<open>x\<close>: 52 bits below the leading bit, but not below -1074, where
  the subnormal numbers end.  \<open>rne\<close> rounds a rational to the nearest integer, ties to
  even.  \<open>round_double\<close> rounds to the nearest multiple of the unit in the last place.
\<close>

definition ilog2 :: "rat \<Rightarrow> int" where
  "ilog2 x = (if 1 \<le> x then bitlen \<lfloor>x\<rfloor> - 1 else - bitlen (\<lceil>1 / x\<rceil> - 1))"

definition rne :: "rat \<Rightarrow> int" where
  "rne r =
     (let f = \<lfloor>r\<rfloor>; d = r - of_int f in
      if d < 1 / 2 then f
      else if 1 / 2 < d then f + 1
      else if even f then f else f + 1)"

definition quantum_exp :: "rat \<Rightarrow> int" where
  "quantum_exp y = max (ilog2 y - 52) (- 1074)"

definition round_pos :: "rat \<Rightarrow> rat" where
  "round_pos y = of_int (rne (y / 2 powi quantum_exp y)) * 2 powi quantum_exp y"

definition round_double :: "rat \<Rightarrow> rat" where
  "round_double x = (if x = 0 then 0 else if x < 0 then - round_pos (- x) else round_pos x)"

text \<open>
  \<open>fl\<close> is the result of a floating-point operation whose exact result is \<open>x\<close>: the
  rounded value, or none when that is not below \<open>2^1024\<close> in magnitude.  The C result is
  then an infinity, which this model does not follow.  A rational is a double when
  rounding leaves it as it is.
\<close>

definition fl :: "rat \<Rightarrow> rat option" where
  "fl x = (let r = round_double x in if \<bar>r\<bar> < 2 ^ 1024 then Some r else None)"

definition is_double :: "rat \<Rightarrow> bool" where
  "is_double x = (fl x = Some x)"

subsection \<open>Numeric formatting (\<^verbatim>\<open>int64_to_str\<close>)\<close>

text \<open>
  \<^verbatim>\<open>int64_to_str\<close> clamps the value at zero, converts it to a double, divides it by
  1000, 10^6 or 10^9 (or not at all) and prints the result with
  \<^verbatim>\<open>snprintf(buf, buflen, "%6.0f%c", s, unit)\<close>.  The conversion and the division round
  to the nearest double; no result here is large enough to overflow.  \<^verbatim>\<open>%6.0f\<close> prints
  the double with no fractional digits, that is, the nearest integer with ties to even,
  right-justified in at least six columns; the unit character follows, and
  \<^verbatim>\<open>snprintf\<close> keeps at most \<open>buflen - 1\<close> characters.  The printed value is never
  negative.
\<close>

function dec_digits :: "nat \<Rightarrow> string" where
  "dec_digits n = (if n < 10 then [''0123456789'' ! n]
                   else dec_digits (n div 10) @ [''0123456789'' ! (n mod 10)])"
  by pat_completeness auto
termination
  by (relation "measure id") auto

declare dec_digits.simps [simp del]

definition pad_left :: "nat \<Rightarrow> string \<Rightarrow> string" where
  "pad_left w s = replicate (w - length s) CHR '' '' @ s"

definition fmt_6_0f :: "rat \<Rightarrow> string" where
  "fmt_6_0f s = pad_left 6 (dec_digits (nat (rne s)))"

definition int64_to_str :: "int64 \<Rightarrow> nat \<Rightarrow> string" where
  "int64_to_str val buflen =
     (let pos_val = (if sint val < 0 then 0 else sint val);
          v = round_double (of_int pos_val)
      in take (buflen - 1)
        (if pos_val < 1000000 then fmt_6_0f v @ [CHR '' '']
         else if pos_val < 1000000000 then fmt_6_0f (round_double (v / 1000)) @ [CHR ''k'']
         else if pos_val < 1000000000000
           then fmt_6_0f (round_double (v / 1000000)) @ [CHR ''M'']
         else fmt_6_0f (round_double (v / 1000000000)) @ [CHR ''G'']))"

subsection \<open>The wait computation of the main loop\<close>

text \<open>
  Each iteration of the sampling loop of \<^verbatim>\<open>main\<close> computes the time to sleep before
  the next sample from the start time, the tick counter \<open>t\<close> (a \<^verbatim>\<open>uint64_t\<close>), the
  interval and the current time, all doubles.  \<open>wait_for\<close> is the C expression
  \<^verbatim>\<open>time_start + ((double)t * duration_secs) - time_now\<close>, which occurs twice: the
  conversion of \<open>t\<close>, the product, the sum and the difference are each rounded.
  \<^verbatim>\<open>ceil\<close> of a double is a double, so it is not rounded; the assignment of its result
  to \<open>t\<close> converts it to \<^verbatim>\<open>uint64_t\<close>, which is undefined outside the range of that
  type.  \<open>next_wait\<close> returns the new tick counter and the wait, or none when an
  operation overflows or the conversion is undefined.
\<close>

definition uint64_of_double :: "rat \<Rightarrow> 64 word option" where
  "uint64_of_double v =
     (if - 1 < v \<and> v < 2 ^ 64 then Some (word_of_int (if 0 \<le> v then \<lfloor>v\<rfloor> else \<lceil>v\<rceil>))
      else None)"

definition wait_for :: "rat \<Rightarrow> rat \<Rightarrow> rat \<Rightarrow> 64 word \<Rightarrow> rat option" where
  "wait_for time_start time_now duration_secs t =
     do {
       td \<leftarrow> fl (of_nat (unat t));
       p \<leftarrow> fl (td * duration_secs);
       s \<leftarrow> fl (time_start + p);
       fl (s - time_now)
     }"

definition next_wait ::
    "rat \<Rightarrow> rat \<Rightarrow> rat \<Rightarrow> 64 word \<Rightarrow> bool \<Rightarrow> (64 word \<times> rat) option" where
  "next_wait time_start time_now duration_secs t redo =
     do {
       secs \<leftarrow> wait_for time_start time_now duration_secs t;
       if secs < 0 then
         do {
           x \<leftarrow> fl (time_now - time_start);
           q \<leftarrow> (if duration_secs = 0 then None else fl (x / duration_secs));
           t' \<leftarrow> uint64_of_double (of_int \<lceil>q\<rceil>);
           secs' \<leftarrow> wait_for time_start time_now duration_secs t';
           if secs' < 1 / 2 then
             do {
               secs'' \<leftarrow> fl (secs' + duration_secs);
               Some (t', secs'')
             }
           else Some (t', secs')
         }
       else Some (if \<not> redo then t + 1 else t, secs)
     }"

subsection \<open>The pid and name allow-list (\<^verbatim>\<open>procnamecmp\<close>, \<^verbatim>\<open>fault_get_by_proc\<close>)\<close>

text \<open>
  A C string is the list of its characters before the terminating NUL; reading at the
  end of the list yields NUL.  \<^verbatim>\<open>char\<close> is signed on the target, so the difference
  that \<^verbatim>\<open>procnamecmp\<close> returns is a difference of signed character values.
\<close>

definition c_char :: "char \<Rightarrow> int" where
  "c_char c = (if (128 :: int) \<le> of_char c then of_char c - 256 else of_char c)"

fun procnamecmp :: "string \<Rightarrow> string \<Rightarrow> int" where
  "procnamecmp [] s2 = 0"
| "procnamecmp (c1 # s1) s2 =
     (if c1 = CHR 0x00 \<or> c1 = CHR '' '' then 0
      else case s2 of
        [] \<Rightarrow> c_char c1 - c_char (CHR 0x00)
      | c2 # s2' \<Rightarrow> if c1 = c2 then procnamecmp s1 s2' else c_char c1 - c_char c2)"

text \<open>
  The header includes \<^verbatim>\<open>libgen.h\<close>, so \<^verbatim>\<open>basename\<close> is the POSIX function of the
  C library.  It returns the last component of the path, \<open>.\<close> for a null or empty path
  and \<open>/\<close> for a path of separators only; when the path ends in separators it cuts them
  off in place, so the function also returns the caller's string as it is left.
\<close>

definition last_component :: "string \<Rightarrow> string" where
  "last_component s = rev (takeWhile (\<lambda>c. c \<noteq> CHR ''/'') (rev s))"

definition strip_slashes :: "string \<Rightarrow> string" where
  "strip_slashes s = rev (dropWhile (\<lambda>c. c = CHR ''/'') (rev s))"

definition xpg_basename :: "string option \<Rightarrow> string \<times> string option" where
  "xpg_basename filename =
     (case filename of
        None \<Rightarrow> (''.'', None)
      | Some s \<Rightarrow>
          if s = [] then (''.'', Some s)
          else if CHR ''/'' \<notin> set s then (s, Some s)
          else if last s \<noteq> CHR ''/'' then (last_component s, Some s)
          else if strip_slashes s = [] then (''/'', Some s)
          else (last_component (strip_slashes s), Some (strip_slashes s)))"

definition no_trailing_slash :: "string \<Rightarrow> bool" where
  "no_trailing_slash s = (s = [] \<or> last s \<noteq> CHR ''/'')"

text \<open>
  An entry of the allow-list \<^verbatim>\<open>pids\<close>; the list itself is the chain of the
  \<^verbatim>\<open>next\<close> pointers.  \<^verbatim>\<open>pid_list_scan\<close> is the loop of \<^verbatim>\<open>fault_get_by_proc\<close> over
  that chain for a process with the given pid and cached command line: it returns
  whether the loop left by \<^verbatim>\<open>break\<close>, and the cached command line as the calls of
  \<^verbatim>\<open>basename\<close> left it.
\<close>

record pid_list_t =
  pl_name :: "string option"
  pl_pid :: pid_t

fun pid_list_scan :: "pid_list_t list \<Rightarrow> pid_t \<Rightarrow> string option \<Rightarrow> bool \<times> string option" where
  "pid_list_scan [] pid cmdline = (False, cmdline)"
| "pid_list_scan (p # ps) pid cmdline =
     (if pl_pid p = pid then (True, cmdline)
      else case pl_name p of
        None \<Rightarrow> pid_list_scan ps pid cmdline
      | Some name \<Rightarrow>
          (let (tmp_cmdline, cmdline') =
                 (if CHR ''/'' \<notin> set name
                  then (Some (fst (xpg_basename cmdline)), snd (xpg_basename cmdline))
                  else (cmdline, cmdline))
           in case tmp_cmdline of
                None \<Rightarrow> pid_list_scan ps pid cmdline'
              | Some tc \<Rightarrow>
                  if procnamecmp name tc = 0 then (True, cmdline')
                  else pid_list_scan ps pid cmdline'))"

text \<open>
  \<^verbatim>\<open>parse_pid_list\<close> on the tokens that \<^verbatim>\<open>strtok\<close> cuts at the commas: a token that
  starts with a digit is a pid, read by \<^verbatim>\<open>strtol\<close> (an overflow of \<^verbatim>\<open>long\<close> sets
  \<^verbatim>\<open>errno\<close> and the parse fails) and added unless that pid is listed already; any other
  token is a name, added with pid 0.  New entries go to the front.
\<close>

definition isdigit :: "char \<Rightarrow> bool" where
  "isdigit c = (c \<in> set ''0123456789'')"

definition strtol10 :: "string \<Rightarrow> int" where
  "strtol10 s = foldl (\<lambda>a c. 10 * a + (of_char c - 48)) 0 (takeWhile isdigit s)"

fun parse_pid_list :: "string list \<Rightarrow> pid_list_t list \<Rightarrow> pid_list_t list option" where
  "parse_pid_list [] pids = Some pids"
| "parse_pid_list (token # rest) pids =
     (if isdigit (case token of [] \<Rightarrow> CHR 0x00 | c # _ \<Rightarrow> c) then
        (if strtol10 token > 9223372036854775807 then None
         else
           (let pid = (word_of_int (strtol10 token) :: pid_t) in
            if \<exists>p \<in> set pids. pl_pid p = pid then parse_pid_list rest pids
            else parse_pid_list rest (\<lparr>pl_name = None, pl_pid = pid\<rparr> # pids)))
      else parse_pid_list rest (\<lparr>pl_name = Some token, pl_pid = 0\<rparr> # pids))"

text \<open>
  The specification's words for the name test: the listed name, read up to its first
  blank, is compared with the display name character by character, and the comparison
  succeeds when the listed name is used up.  That is, the listed name cut at its first
  blank is an initial segment of the display name.
\<close>

definition name_matches :: "string \<Rightarrow> string \<Rightarrow> bool" where
  "name_matches name display =
     prefix (takeWhile (\<lambda>c. c \<noteq> CHR '' '' \<and> c \<noteq> CHR 0x00) name) display"

subsection \<open>The user-name and process caches (\<^verbatim>\<open>cache.c\<close>)\<close>

text \<open>
  Both caches are hash tables of singly linked chains.  A chain is the list of the
  addresses of its records, head first (a record's \<^verbatim>\<open>next\<close> pointer is written once,
  when the record is put in front of its chain); the records live in a store.  The
  state also counts the queries made to the system: \<^verbatim>\<open>getpwuid\<close>, the \<^verbatim>\<open>stat\<close> of
  \<^verbatim>\<open>pid_exists\<close> and the reads of \<^verbatim>\<open>/proc/pid/cmdline\<close> and \<^verbatim>\<open>/proc/pid/comm\<close>.
  What the system answers to one lookup is the environment of that lookup:
  the result of \<^verbatim>\<open>calloc\<close> (no address when memory is exhausted), the user name that
  \<^verbatim>\<open>getpwuid\<close> finds, whether \<^verbatim>\<open>strdup\<close> succeeds, whether the process exists, its
  command line and short name, and the option flag \<^verbatim>\<open>OPT_CMD_COMM\<close>.
\<close>

record uname_cache_t =
  u_name :: string
  u_uid :: uid_t

record proc_info_t =
  p_cmdline :: "string option"
  p_pid :: pid_t
  kernel_thread :: bool

record cache_state =
  uname_cache :: "nat \<Rightarrow> addr list"
  uname_mem :: "addr \<rightharpoonup> uname_cache_t"
  proc_cache_hash :: "nat \<Rightarrow> addr list"
  proc_mem :: "addr \<rightharpoonup> proc_info_t"
  sys_queries :: nat

record sys_env =
  calloc :: "addr option"
  getpwuid :: "string option"
  strdup_ok :: bool
  pid_exists :: bool
  get_pid_cmdline :: "string option"
  get_pid_comm :: "string option"
  opt_cmd_comm :: bool

definition hash_uid :: "uid_t \<Rightarrow> nat" where
  "hash_uid uid = unat (ucast uid :: 64 word) mod 521"

definition proc_cache_hash_pid :: "pid_t \<Rightarrow> nat" where
  "proc_cache_hash_pid pid = unat (scast pid :: 64 word) mod 503"

text \<open>\<^verbatim>\<open>snprintf(buf, sizeof(buf), "%i", uid)\<close>: the uid printed as a signed decimal.\<close>

definition fmt_i :: "int \<Rightarrow> string" where
  "fmt_i n = (if n < 0 then CHR ''-'' # dec_digits (nat (- n)) else dec_digits (nat n))"

definition uname_cache_find ::
    "sys_env \<Rightarrow> uid_t \<Rightarrow> cache_state \<Rightarrow> addr option \<times> cache_state" where
  "uname_cache_find env uid st =
     (let h = hash_uid uid in
      case find (\<lambda>a. case uname_mem st a of None \<Rightarrow> False | Some u \<Rightarrow> u_uid u = uid)
                (uname_cache st h) of
        Some uname \<Rightarrow> (Some uname, st)
      | None \<Rightarrow>
          (case calloc env of
             None \<Rightarrow> (None, st)
           | Some uname \<Rightarrow>
               (let st1 = st\<lparr>sys_queries := sys_queries st + 1\<rparr>;
                    name = (case getpwuid env of
                              None \<Rightarrow> fmt_i (sint uid)
                            | Some pw_name \<Rightarrow> pw_name)
                in if \<not> strdup_ok env then (None, st1)
                   else (Some uname,
                         st1\<lparr>uname_mem := (uname_mem st1)(uname \<mapsto> \<lparr>u_name = name, u_uid = uid\<rparr>),
                             uname_cache := (uname_cache st1)(h := uname # uname_cache st1 h)\<rparr>))))"

definition proc_cache_add_at_hash_index ::
    "sys_env \<Rightarrow> nat \<Rightarrow> pid_t \<Rightarrow> cache_state \<Rightarrow> addr option \<times> cache_state" where
  "proc_cache_add_at_hash_index env h pid st =
     (case calloc env of
        None \<Rightarrow> (None, st)
      | Some p \<Rightarrow>
          (let st1 = st\<lparr>sys_queries := sys_queries st + 1\<rparr>;
               cmdline = get_pid_cmdline env;
               kt = (cmdline = None);
               requery = (cmdline = None \<or> opt_cmd_comm env);
               st2 = (if requery then st1\<lparr>sys_queries := sys_queries st1 + 1\<rparr> else st1);
               cmdline' = (if requery then get_pid_comm env else cmdline)
           in (Some p,
               st2\<lparr>proc_mem := (proc_mem st2)(p \<mapsto>
                      \<lparr>p_cmdline = cmdline', p_pid = pid, kernel_thread = kt\<rparr>),
                   proc_cache_hash := (proc_cache_hash st2)(h := p # proc_cache_hash st2 h)\<rparr>)))"

definition proc_cache_find_by_pid ::
    "sys_env \<Rightarrow> pid_t \<Rightarrow> cache_state \<Rightarrow> addr option \<times> cache_state" where
  "proc_cache_find_by_pid env pid st =
     (let h = proc_cache_hash_pid pid in
      case find (\<lambda>a. case proc_mem st a of None \<Rightarrow> False | Some p \<Rightarrow> p_pid p = pid)
                (proc_cache_hash st h) of
        Some p \<Rightarrow> (Some p, st)
      | None \<Rightarrow>
          (let st1 = st\<lparr>sys_queries := sys_queries st + 1\<rparr>
           in if \<not> pid_exists env then (None, st1)
              else proc_cache_add_at_hash_index env h pid st1))"

text \<open>A start state with empty caches, and two environments, for the examples.\<close>

definition empty_caches :: cache_state where
  "empty_caches = \<lparr>uname_cache = \<lambda>h. [], uname_mem = Map.empty,
     proc_cache_hash = \<lambda>h. [], proc_mem = Map.empty, sys_queries = 0\<rparr>"

definition init_env :: sys_env where
  "init_env = \<lparr>calloc = Some 1, getpwuid = Some ''root'', strdup_ok = True,
     pid_exists = True, get_pid_cmdline = Some ''/sbin/init'', get_pid_comm = Some ''init'',
     opt_cmd_comm = False\<rparr>"

definition dead_env :: sys_env where
  "dead_env = \<lparr>calloc = None, getpwuid = None, strdup_ok = False,
     pid_exists = False, get_pid_cmdline = None, get_pid_comm = None,
     opt_cmd_comm = False\<rparr>"

subsection \<open>Fault records, the delta engine and the dumps\<close>

text \<open>
  A fault record, as in the header.  The fields \<^verbatim>\<open>pid\<close>, \<^verbatim>\<open>uid\<close>, \<^verbatim>\<open>proc\<close> and
  \<^verbatim>\<open>uname\<close> carry the prefix \<open>f_\<close> here.  Records live in a store from addresses to
  records.  A sample list (the chain of the \<^verbatim>\<open>next\<close> pointers, which the dump routines
  only read) is the list of the addresses of its records; the two sort linkages
  \<^verbatim>\<open>s_next\<close> and \<^verbatim>\<open>d_next\<close>, which the dump routines write, are pointers in the store.
\<close>

record fault_info_t =
  f_pid :: pid_t
  f_uid :: uid_t
  f_proc :: "addr option"
  f_uname :: "addr option"
  min_fault :: int64
  maj_fault :: int64
  vm_swap :: int64
  d_min_fault :: int64
  d_maj_fault :: int64
  d_next :: "addr option"
  s_next :: "addr option"
  alive :: bool

type_synonym store = "addr \<Rightarrow> fault_info_t"

text \<open>
  \<^verbatim>\<open>fault_cache_alloc\<close> hands out a record filled with zero bytes (by \<^verbatim>\<open>memset\<close> for a
  recycled record, by \<^verbatim>\<open>calloc\<close> for a new one).
\<close>

definition zero_fault_info :: fault_info_t where
  "zero_fault_info = \<lparr>f_pid = 0, f_uid = 0, f_proc = None, f_uname = None,
     min_fault = 0, maj_fault = 0, vm_swap = 0, d_min_fault = 0, d_maj_fault = 0,
     d_next = None, s_next = None, alive = False\<rparr>"

text \<open>\<^verbatim>\<open>fault_delta\<close>: the linear scan of the previous list for the pid of the new record.\<close>

fun fault_delta :: "store \<Rightarrow> addr \<Rightarrow> addr list \<Rightarrow> store" where
  "fault_delta h fault_new [] =
     (let h1 = h(fault_new := (h fault_new)\<lparr>d_min_fault := min_fault (h fault_new)\<rparr>)
      in h1(fault_new := (h1 fault_new)\<lparr>d_maj_fault := maj_fault (h1 fault_new)\<rparr>))"
| "fault_delta h fault_new (fault_old # rest) =
     (if f_pid (h fault_new) = f_pid (h fault_old) then
        (let h1 = h(fault_new := (h fault_new)
                     \<lparr>d_min_fault := min_fault (h fault_new) - min_fault (h fault_old)\<rparr>);
             h2 = h1(fault_new := (h1 fault_new)
                     \<lparr>d_maj_fault := maj_fault (h1 fault_new) - maj_fault (h1 fault_old)\<rparr>)
         in h2(fault_old := (h2 fault_old)\<lparr>alive := True\<rparr>))
      else fault_delta h fault_new rest)"

text \<open>
  \<^verbatim>\<open>compare\<close>, with the global \<^verbatim>\<open>sort_by\<close> as its first argument.  The sums of two
  64-bit counters wrap around.
\<close>

definition compare :: "int \<Rightarrow> fault_info_t \<Rightarrow> fault_info_t \<Rightarrow> bool" where
  "compare sort_by f1 f2 =
     (if sort_by = 0 then
        sint (min_fault f1 + maj_fault f1) < sint (min_fault f2 + maj_fault f2)
      else if sort_by = 1 then sint (maj_fault f1) < sint (maj_fault f2)
      else if sort_by = 2 then sint (min_fault f1) < sint (min_fault f2)
      else if sort_by = 3 then
        sint (d_min_fault f1 + d_maj_fault f1) < sint (d_min_fault f2 + d_maj_fault f2)
      else if sort_by = 4 then sint (d_maj_fault f1) < sint (d_maj_fault f2)
      else if sort_by = 5 then sint (d_min_fault f1) < sint (d_min_fault f2)
      else if sort_by = 6 then sint (vm_swap f1) < sint (vm_swap f2)
      else True)"

text \<open>
  The insertion loop that the three dump routines share, up to the linkage it walks:
  \<^verbatim>\<open>for (l = &sorted; *l; l = &(*l)->X_next) { if (compare(*l, fault_info)) {
  fault_info->X_next = *l; break; } } *l = fault_info;\<close>
  The pointer \<open>l\<close> points either to the local variable that heads the chain or to the
  linkage field of a record.  The walk need not end when the linkage is cyclic, so the
  loop is a partial function: \<open>None\<close> means that it does not return.
\<close>

datatype linkage = S_next | D_next

datatype cell = Var | Field addr

fun get_next :: "linkage \<Rightarrow> fault_info_t \<Rightarrow> addr option" where
  "get_next S_next r = s_next r"
| "get_next D_next r = d_next r"

fun set_next :: "linkage \<Rightarrow> addr option \<Rightarrow> fault_info_t \<Rightarrow> fault_info_t" where
  "set_next S_next v r = r\<lparr>s_next := v\<rparr>"
| "set_next D_next v r = r\<lparr>d_next := v\<rparr>"

fun load :: "linkage \<Rightarrow> store \<Rightarrow> addr option \<Rightarrow> cell \<Rightarrow> addr option" where
  "load X h head Var = head"
| "load X h head (Field a) = get_next X (h a)"

fun assign :: "linkage \<Rightarrow> cell \<Rightarrow> addr option \<Rightarrow> store \<Rightarrow> addr option \<Rightarrow> store \<times> addr option" where
  "assign X Var v h head = (h, v)"
| "assign X (Field a) v h head = (h(a := set_next X v (h a)), head)"

partial_function (option) insert_walk ::
    "linkage \<Rightarrow> int \<Rightarrow> addr \<Rightarrow> cell \<Rightarrow> store \<Rightarrow> addr option \<Rightarrow> (store \<times> addr option) option" where
  "insert_walk X sort_by fault_info l h head =
     (case load X h head l of
        None \<Rightarrow> Some (assign X l (Some fault_info) h head)
      | Some x \<Rightarrow>
          if compare sort_by (h x) (h fault_info)
          then Some (assign X l (Some fault_info)
                       (h(fault_info := set_next X (Some x) (h fault_info))) head)
          else insert_walk X sort_by fault_info (Field x) h head)"

declare insert_walk.simps [code]

text \<open>The state of one dump: the store, the head of the sorted chain and the totals.\<close>

record dump_state =
  store_of :: store
  sorted_head :: "addr option"
  t_min_fault :: int64
  t_maj_fault :: int64
  t_d_min_fault :: int64
  t_d_maj_fault :: int64
  t_vm_swap :: int64

definition dump_init :: "store \<Rightarrow> dump_state" where
  "dump_init h = \<lparr>store_of = h, sorted_head = None, t_min_fault = 0, t_maj_fault = 0,
     t_d_min_fault = 0, t_d_maj_fault = 0, t_vm_swap = 0\<rparr>"

text \<open>The first loop of \<^verbatim>\<open>fault_dump_json\<close>, over the new list.\<close>

fun json_scan :: "int \<Rightarrow> addr list \<Rightarrow> addr list \<Rightarrow> dump_state \<Rightarrow> dump_state option" where
  "json_scan sort_by olds [] st = Some st"
| "json_scan sort_by olds (fault_info # rest) st =
     (let h1 = fault_delta (store_of st) fault_info olds in
      case insert_walk S_next sort_by fault_info Var h1 (sorted_head st) of
        None \<Rightarrow> None
      | Some (h2, head) \<Rightarrow>
          json_scan sort_by olds rest
            (st\<lparr>store_of := h2, sorted_head := head,
                t_min_fault := t_min_fault st + min_fault (h2 fault_info),
                t_maj_fault := t_maj_fault st + maj_fault (h2 fault_info),
                t_d_min_fault := t_d_min_fault st + d_min_fault (h2 fault_info),
                t_d_maj_fault := t_d_maj_fault st + d_maj_fault (h2 fault_info),
                t_vm_swap := t_vm_swap st + vm_swap (h2 fault_info)\<rparr>))"

text \<open>The first loop of \<^verbatim>\<open>fault_dump\<close>; it keeps no swap total.\<close>

fun dump_scan :: "int \<Rightarrow> addr list \<Rightarrow> addr list \<Rightarrow> dump_state \<Rightarrow> dump_state option" where
  "dump_scan sort_by olds [] st = Some st"
| "dump_scan sort_by olds (fault_info # rest) st =
     (let h1 = fault_delta (store_of st) fault_info olds in
      case insert_walk S_next sort_by fault_info Var h1 (sorted_head st) of
        None \<Rightarrow> None
      | Some (h2, head) \<Rightarrow>
          dump_scan sort_by olds rest
            (st\<lparr>store_of := h2, sorted_head := head,
                t_min_fault := t_min_fault st + min_fault (h2 fault_info),
                t_maj_fault := t_maj_fault st + maj_fault (h2 fault_info),
                t_d_min_fault := t_d_min_fault st + d_min_fault (h2 fault_info),
                t_d_maj_fault := t_d_maj_fault st + d_maj_fault (h2 fault_info)\<rparr>))"

text \<open>
  The second loop of \<^verbatim>\<open>fault_dump\<close>, over the previous list: a record not marked
  alive is linked into the chain headed by \<^verbatim>\<open>sorted\<close> through \<^verbatim>\<open>d_next\<close>, its
  counters are added to the running totals, its deltas become the negated counters and
  are added to the delta totals, and its counters are zeroed.
\<close>

fun dump_died :: "int \<Rightarrow> addr list \<Rightarrow> dump_state \<Rightarrow> dump_state option" where
  "dump_died sort_by [] st = Some st"
| "dump_died sort_by (fault_info # rest) st =
     (if alive (store_of st fault_info) then dump_died sort_by rest st
      else
        case insert_walk D_next sort_by fault_info Var (store_of st) (sorted_head st) of
          None \<Rightarrow> None
        | Some (h1, head) \<Rightarrow>
            (let t_min = t_min_fault st + min_fault (h1 fault_info);
                 t_maj = t_maj_fault st + maj_fault (h1 fault_info);
                 h2 = h1(fault_info := (h1 fault_info)
                         \<lparr>d_min_fault := - min_fault (h1 fault_info)\<rparr>);
                 h3 = h2(fault_info := (h2 fault_info)
                         \<lparr>d_maj_fault := - maj_fault (h2 fault_info)\<rparr>);
                 t_d_min = t_d_min_fault st + d_min_fault (h3 fault_info);
                 t_d_maj = t_d_maj_fault st + d_maj_fault (h3 fault_info);
                 h4 = h3(fault_info := (h3 fault_info)\<lparr>min_fault := 0\<rparr>);
                 h5 = h4(fault_info := (h4 fault_info)\<lparr>maj_fault := 0\<rparr>)
             in dump_died sort_by rest
                  (st\<lparr>store_of := h5, sorted_head := head,
                      t_min_fault := t_min, t_maj_fault := t_maj,
                      t_d_min_fault := t_d_min, t_d_maj_fault := t_d_maj\<rparr>)))"

text \<open>
  The first loop of \<^verbatim>\<open>fault_dump_diff\<close>: a record whose deltas sum to zero is skipped;
  the others are linked through \<^verbatim>\<open>d_next\<close>.
\<close>

fun diff_scan :: "int \<Rightarrow> addr list \<Rightarrow> addr list \<Rightarrow> dump_state \<Rightarrow> dump_state option" where
  "diff_scan sort_by olds [] st = Some st"
| "diff_scan sort_by olds (fault_info # rest) st =
     (let h1 = fault_delta (store_of st) fault_info olds in
      if d_min_fault (h1 fault_info) + d_maj_fault (h1 fault_info) = 0
      then diff_scan sort_by olds rest (st\<lparr>store_of := h1\<rparr>)
      else
        case insert_walk D_next sort_by fault_info Var h1 (sorted_head st) of
          None \<Rightarrow> None
        | Some (h2, head) \<Rightarrow>
            diff_scan sort_by olds rest
              (st\<lparr>store_of := h2, sorted_head := head,
                  t_min_fault := t_min_fault st + min_fault (h2 fault_info),
                  t_maj_fault := t_maj_fault st + maj_fault (h2 fault_info),
                  t_d_min_fault := t_d_min_fault st + d_min_fault (h2 fault_info),
                  t_d_maj_fault := t_d_maj_fault st + d_maj_fault (h2 fault_info)\<rparr>))"

text \<open>
  The second loop of \<^verbatim>\<open>fault_dump_diff\<close>: as in \<^verbatim>\<open>fault_dump\<close>, but the counters of
  the dead process are subtracted from the running totals.
\<close>

fun diff_died :: "int \<Rightarrow> addr list \<Rightarrow> dump_state \<Rightarrow> dump_state option" where
  "diff_died sort_by [] st = Some st"
| "diff_died sort_by (fault_info # rest) st =
     (if alive (store_of st fault_info) then diff_died sort_by rest st
      else
        case insert_walk D_next sort_by fault_info Var (store_of st) (sorted_head st) of
          None \<Rightarrow> None
        | Some (h1, head) \<Rightarrow>
            (let t_min = t_min_fault st - min_fault (h1 fault_info);
                 t_maj = t_maj_fault st - maj_fault (h1 fault_info);
                 h2 = h1(fault_info := (h1 fault_info)
                         \<lparr>d_min_fault := - min_fault (h1 fault_info)\<rparr>);
                 h3 = h2(fault_info := (h2 fault_info)
                         \<lparr>d_maj_fault := - maj_fault (h2 fault_info)\<rparr>);
                 t_d_min = t_d_min_fault st + d_min_fault (h3 fault_info);
                 t_d_maj = t_d_maj_fault st + d_maj_fault (h3 fault_info);
                 h4 = h3(fault_info := (h3 fault_info)\<lparr>min_fault := 0\<rparr>);
                 h5 = h4(fault_info := (h4 fault_info)\<lparr>maj_fault := 0\<rparr>)
             in diff_died sort_by rest
                  (st\<lparr>store_of := h5, sorted_head := head,
                      t_min_fault := t_min, t_maj_fault := t_maj,
                      t_d_min_fault := t_d_min, t_d_maj_fault := t_d_maj\<rparr>)))"

text \<open>
  The print loops.  \<^verbatim>\<open>fault_dump_json\<close> and \<^verbatim>\<open>fault_dump\<close> follow \<^verbatim>\<open>s_next\<close> from
  the head and print one row per record reached; \<^verbatim>\<open>fault_dump_diff\<close> follows
  \<^verbatim>\<open>d_next\<close> and clears it behind itself.  The result is the list of the addresses of
  the records printed, in order.
\<close>

partial_function (option) print_sorted :: "store \<Rightarrow> addr option \<Rightarrow> addr list option" where
  "print_sorted h p =
     (case p of
        None \<Rightarrow> Some []
      | Some fault_info \<Rightarrow>
          Option.bind (print_sorted h (s_next (h fault_info)))
            (\<lambda>rest. Some (fault_info # rest)))"

declare print_sorted.simps [code]

partial_function (option) print_deltas :: "store \<Rightarrow> addr option \<Rightarrow> (addr list \<times> store) option" where
  "print_deltas h p =
     (case p of
        None \<Rightarrow> Some ([], h)
      | Some fault_info \<Rightarrow>
          Option.bind
            (print_deltas (h(fault_info := (h fault_info)\<lparr>d_next := None\<rparr>))
               (d_next (h fault_info)))
            (\<lambda>(rest, h'). Some (fault_info # rest, h')))"

declare print_deltas.simps [code]

text \<open>
  The numeric cells of one printed row, each formatted into a buffer of twelve bytes:
  major, minor and swap in the one-shot layout; major, minor, the two deltas and swap
  otherwise.
\<close>

definition fault_line :: "bool \<Rightarrow> fault_info_t \<Rightarrow> string list" where
  "fault_line one_shot r =
     (if one_shot
      then [int64_to_str (maj_fault r) 12, int64_to_str (min_fault r) 12,
            int64_to_str (vm_swap r) 12]
      else [int64_to_str (maj_fault r) 12, int64_to_str (min_fault r) 12,
            int64_to_str (d_maj_fault r) 12, int64_to_str (d_min_fault r) 12,
            int64_to_str (vm_swap r) 12])"

text \<open>
  The result of a dump: the final state and the rows printed.  \<open>None\<close> means that one
  of the walks does not return.
\<close>

record dump_result = dump_state +
  rows :: "addr list"

definition finish :: "dump_state \<Rightarrow> addr list \<Rightarrow> dump_result" where
  "finish st rs = dump_state.extend st (dump_result.fields rs)"

definition fault_dump_json :: "int \<Rightarrow> store \<Rightarrow> addr list \<Rightarrow> addr list \<Rightarrow> dump_result option" where
  "fault_dump_json sort_by h fault_info_old fault_info_new =
     (case json_scan sort_by fault_info_old fault_info_new (dump_init h) of
        None \<Rightarrow> None
      | Some st \<Rightarrow>
          map_option (finish st) (print_sorted (store_of st) (sorted_head st)))"

definition fault_dump ::
    "int \<Rightarrow> store \<Rightarrow> addr list \<Rightarrow> addr list \<Rightarrow> bool \<Rightarrow> dump_result option" where
  "fault_dump sort_by h fault_info_old fault_info_new one_shot =
     (case dump_scan sort_by fault_info_old fault_info_new (dump_init h) of
        None \<Rightarrow> None
      | Some st1 \<Rightarrow>
          (case dump_died sort_by fault_info_old st1 of
             None \<Rightarrow> None
           | Some st2 \<Rightarrow>
               map_option (finish st2) (print_sorted (store_of st2) (sorted_head st2))))"

definition fault_dump_diff :: "int \<Rightarrow> store \<Rightarrow> addr list \<Rightarrow> addr list \<Rightarrow> dump_result option" where
  "fault_dump_diff sort_by h fault_info_old fault_info_new =
     (case diff_scan sort_by fault_info_old fault_info_new (dump_init h) of
        None \<Rightarrow> None
      | Some st1 \<Rightarrow>
          (case diff_died sort_by fault_info_old st1 of
             None \<Rightarrow> None
           | Some st2 \<Rightarrow>
               map_option (\<lambda>(rs, h'). finish (st2\<lparr>store_of := h'\<rparr>) rs)
                 (print_deltas (store_of st2) (sorted_head st2))))"

subsection \<open>Abstractions for the proofs about the dumps\<close>

text \<open>
  The three first loops differ in the linkage they write, in whether they skip a record
  whose deltas sum to zero and in whether they keep a swap total; the two second loops
  differ in whether they add or subtract the counters of a dead process.  The generic
  loops below take these as arguments; each loop of the source is an instance.
\<close>

fun gscan ::
    "linkage \<Rightarrow> bool \<Rightarrow> bool \<Rightarrow> int \<Rightarrow> addr list \<Rightarrow> addr list \<Rightarrow> dump_state \<Rightarrow> dump_state option" where
  "gscan X skip sw sort_by olds [] st = Some st"
| "gscan X skip sw sort_by olds (fault_info # rest) st =
     (let h1 = fault_delta (store_of st) fault_info olds in
      if skip \<and> d_min_fault (h1 fault_info) + d_maj_fault (h1 fault_info) = 0
      then gscan X skip sw sort_by olds rest (st\<lparr>store_of := h1\<rparr>)
      else
        case insert_walk X sort_by fault_info Var h1 (sorted_head st) of
          None \<Rightarrow> None
        | Some (h2, head) \<Rightarrow>
            gscan X skip sw sort_by olds rest
              (st\<lparr>store_of := h2, sorted_head := head,
                  t_min_fault := t_min_fault st + min_fault (h2 fault_info),
                  t_maj_fault := t_maj_fault st + maj_fault (h2 fault_info),
                  t_d_min_fault := t_d_min_fault st + d_min_fault (h2 fault_info),
                  t_d_maj_fault := t_d_maj_fault st + d_maj_fault (h2 fault_info),
                  t_vm_swap := (if sw then t_vm_swap st + vm_swap (h2 fault_info)
                                else t_vm_swap st)\<rparr>))"

fun gdied :: "bool \<Rightarrow> int \<Rightarrow> addr list \<Rightarrow> dump_state \<Rightarrow> dump_state option" where
  "gdied sub sort_by [] st = Some st"
| "gdied sub sort_by (fault_info # rest) st =
     (if alive (store_of st fault_info) then gdied sub sort_by rest st
      else
        case insert_walk D_next sort_by fault_info Var (store_of st) (sorted_head st) of
          None \<Rightarrow> None
        | Some (h1, head) \<Rightarrow>
            gdied sub sort_by rest
              (st\<lparr>store_of := h1(fault_info := (h1 fault_info)
                       \<lparr>d_min_fault := - min_fault (h1 fault_info),
                        d_maj_fault := - maj_fault (h1 fault_info),
                        min_fault := 0, maj_fault := 0\<rparr>),
                  sorted_head := head,
                  t_min_fault := (if sub then t_min_fault st - min_fault (h1 fault_info)
                                  else t_min_fault st + min_fault (h1 fault_info)),
                  t_maj_fault := (if sub then t_maj_fault st - maj_fault (h1 fault_info)
                                  else t_maj_fault st + maj_fault (h1 fault_info)),
                  t_d_min_fault := t_d_min_fault st + - min_fault (h1 fault_info),
                  t_d_maj_fault := t_d_maj_fault st + - maj_fault (h1 fault_info)\<rparr>))"

text \<open>
  A linkage read as a list: \<open>chain_list X h p as\<close> holds when following the linkage
  \<open>X\<close> from the pointer \<open>p\<close> visits exactly the records \<open>as\<close>, in this order, and then
  reaches the null pointer.
\<close>

fun chain_list :: "linkage \<Rightarrow> store \<Rightarrow> addr option \<Rightarrow> addr list \<Rightarrow> bool" where
  "chain_list X h p [] = (p = None)"
| "chain_list X h p (a # as) = (p = Some a \<and> chain_list X h (get_next X (h a)) as)"

text \<open>The insertion on lists that the loop performs on the linkage.\<close>

fun ins :: "int \<Rightarrow> store \<Rightarrow> addr \<Rightarrow> addr list \<Rightarrow> addr list" where
  "ins sort_by h fault_info [] = [fault_info]"
| "ins sort_by h fault_info (x # xs) =
     (if compare sort_by (h x) (h fault_info) then fault_info # x # xs
      else x # ins sort_by h fault_info xs)"

text \<open>The key that \<^verbatim>\<open>compare\<close> orders by, for the seven values of \<^verbatim>\<open>sort_by\<close>.\<close>

definition sort_key_of :: "int \<Rightarrow> fault_info_t \<Rightarrow> int" where
  "sort_key_of sort_by f =
     (if sort_by = 0 then sint (min_fault f + maj_fault f)
      else if sort_by = 1 then sint (maj_fault f)
      else if sort_by = 2 then sint (min_fault f)
      else if sort_by = 3 then sint (d_min_fault f + d_maj_fault f)
      else if sort_by = 4 then sint (d_maj_fault f)
      else if sort_by = 5 then sint (d_min_fault f)
      else sint (vm_swap f))"

text \<open>The previous record that \<^verbatim>\<open>fault_delta\<close> matches a new record with, if any.\<close>

definition old_match :: "store \<Rightarrow> addr list \<Rightarrow> addr \<Rightarrow> addr option" where
  "old_match h olds n = find (\<lambda>a. f_pid (h a) = f_pid (h n)) olds"

text \<open>
  The state of the records at the start of a tick: the records of the two lists are
  pairwise different, their sort linkages are null (as \<^verbatim>\<open>fault_cache_alloc\<close> and the
  print loop of the diff dump leave them), and no previous record is marked alive yet.
\<close>

definition tick_start :: "store \<Rightarrow> addr list \<Rightarrow> addr list \<Rightarrow> bool" where
  "tick_start h olds news =
     (distinct (news @ olds)
      \<and> list_all (\<lambda>a. s_next (h a) = None \<and> d_next (h a) = None) (news @ olds)
      \<and> list_all (\<lambda>a. alive (h a) = False) olds)"

text \<open>
  A store for the examples.  Record 1 is pid 10 at the first tick (major 5, minor 20)
  and record 3 is pid 10 at the second tick (major 9, minor 20); record 2 is pid 11
  (major 0, minor 3) and record 4 is pid 12 (major 100, minor 100).
\<close>

definition ex_store :: store where
  "ex_store = (\<lambda>a. zero_fault_info)
     (1 := zero_fault_info\<lparr>f_pid := 10, maj_fault := 5, min_fault := 20\<rparr>,
      2 := zero_fault_info\<lparr>f_pid := 11, maj_fault := 0, min_fault := 3\<rparr>,
      3 := zero_fault_info\<lparr>f_pid := 10, maj_fault := 9, min_fault := 20\<rparr>,
      4 := zero_fault_info\<lparr>f_pid := 12, maj_fault := 100, min_fault := 100\<rparr>)"

text \<open>
  What the loops never change in a record (\<open>counters\<close>), what \<^verbatim>\<open>compare\<close> reads
  (\<open>sort_data\<close>), and the pair of deltas that \<^verbatim>\<open>fault_delta\<close> computes for a new record.
\<close>

definition counters :: "fault_info_t \<Rightarrow> pid_t \<times> int64 \<times> int64 \<times> int64" where
  "counters r = (f_pid r, min_fault r, maj_fault r, vm_swap r)"

definition sort_data :: "fault_info_t \<Rightarrow> int64 \<times> int64 \<times> int64 \<times> int64 \<times> int64" where
  "sort_data r = (min_fault r, maj_fault r, vm_swap r, d_min_fault r, d_maj_fault r)"

definition delta_of :: "store \<Rightarrow> addr list \<Rightarrow> addr \<Rightarrow> int64 \<times> int64" where
  "delta_of h olds n =
     (case old_match h olds n of
        None \<Rightarrow> (min_fault (h n), maj_fault (h n))
      | Some old \<Rightarrow> (min_fault (h n) - min_fault (h old), maj_fault (h n) - maj_fault (h old)))"

text \<open>Whether the first loop links a record: the diff dump skips deltas that sum to zero.\<close>

definition kept :: "bool \<Rightarrow> store \<Rightarrow> addr list \<Rightarrow> addr \<Rightarrow> bool" where
  "kept skip h olds n = (\<not> (skip \<and> fst (delta_of h olds n) + snd (delta_of h olds n) = 0))"

text \<open>The previous records whose pid does not occur in the new list: the dead processes.\<close>

definition died :: "store \<Rightarrow> addr list \<Rightarrow> addr list \<Rightarrow> addr list" where
  "died h olds news = filter (\<lambda>a. f_pid (h a) \<notin> (\<lambda>n. f_pid (h n)) ` set news) olds"


text \<open>
  A second tick of the full dump sorted by major faults.  After the first tick on the
  example store (previous list 1, new list 4 and 2) record 4 carries \<^verbatim>\<open>s_next\<close> to 2 and
  \<^verbatim>\<open>d_next\<close> to the dead record 1, which was then freed; the allocator hands address 1
  out again, here for a new process with pid 20, and the pids 12 and 11 are gone.
\<close>

definition ex_store3 :: store where
  "ex_store3 = (\<lambda>a. zero_fault_info)
     (1 := zero_fault_info\<lparr>f_pid := 20, maj_fault := 200, min_fault := 50\<rparr>,
      4 := zero_fault_info\<lparr>f_pid := 12, maj_fault := 100, min_fault := 100,
             d_min_fault := 100, d_maj_fault := 100, d_next := Some 1, s_next := Some 2\<rparr>,
      2 := zero_fault_info\<lparr>f_pid := 11, maj_fault := 0, min_fault := 3,
             d_min_fault := 3, d_maj_fault := 0\<rparr>)"

subsection \<open>Sampling one process (\<^verbatim>\<open>fault_get_by_proc\<close>)\<close>

text \<open>
  The state of the sampler: the two caches, the store of the fault records, and the free
  list \<^verbatim>\<open>fault_info_cache\<close> (the list of the addresses of its records, head first).  A
  sample list is the list of the addresses of its records, head first.
\<close>

record sampler_state =
  caches :: cache_state
  heap :: store
  fault_info_cache :: "addr list"

text \<open>
  What the system answers during one call of \<^verbatim>\<open>fault_get_by_proc\<close>: the result of
  \<^verbatim>\<open>getpgid\<close>; the answers to the lookup in the process cache; the result of \<^verbatim>\<open>calloc\<close>
  in \<^verbatim>\<open>fault_cache_alloc\<close>; the content of \<^verbatim>\<open>/proc/pid/stat\<close> (none when \<^verbatim>\<open>fopen\<close>
  fails); what \<^verbatim>\<open>sscanf\<close> with the format \<^verbatim>\<open>"%lu %*u %lu"\<close> reads (the two numbers when
  it returns 2); the lines that \<^verbatim>\<open>fgets\<close> delivers from \<^verbatim>\<open>/proc/pid/status\<close> (none when
  \<^verbatim>\<open>fopen\<close> fails); what \<^verbatim>\<open>sscanf\<close> reads with \<^verbatim>\<open>"%lu"\<close> and with \<^verbatim>\<open>"%9i"\<close> (a number
  when it returns 1); and the answers to the lookup in the user-name cache.
\<close>

record proc_sys =
  getpgid :: int
  proc_env :: sys_env
  calloc_fault :: "addr option"
  proc_stat :: "string option"
  sscanf_lu_u_lu :: "string \<Rightarrow> (int64 \<times> int64) option"
  proc_status :: "string list option"
  sscanf_lu :: "string \<Rightarrow> int64 option"
  sscanf_i :: "string \<Rightarrow> uid_t option"
  uname_env :: sys_env

text \<open>
  \<^verbatim>\<open>fault_cache_alloc\<close> takes the head of the free list, or else asks \<^verbatim>\<open>calloc\<close>; either
  way the record is filled with zero bytes.  \<^verbatim>\<open>fault_cache_free\<close> puts a record back at
  the head of the free list.
\<close>

definition fault_cache_alloc :: "addr option \<Rightarrow> sampler_state \<Rightarrow> addr option \<times> sampler_state" where
  "fault_cache_alloc calloc_result st =
     (case fault_info_cache st of
        fault_info # rest \<Rightarrow>
          (Some fault_info,
           st\<lparr>fault_info_cache := rest, heap := (heap st)(fault_info := zero_fault_info)\<rparr>)
      | [] \<Rightarrow>
          (case calloc_result of
             None \<Rightarrow> (None, st)
           | Some fault_info \<Rightarrow>
               (Some fault_info, st\<lparr>heap := (heap st)(fault_info := zero_fault_info)\<rparr>)))"

definition fault_cache_free :: "addr \<Rightarrow> sampler_state \<Rightarrow> sampler_state" where
  "fault_cache_free fault_info st = st\<lparr>fault_info_cache := fault_info # fault_info_cache st\<rparr>"

text \<open>
  \<^verbatim>\<open>fgets(buffer, n, fp)\<close> at the start of a file with the given content: no line
  when the file is empty, else the first line with its newline, cut to \<open>n - 1\<close>
  characters.  A C string ends at its first NUL.
\<close>

definition fgets :: "nat \<Rightarrow> string \<Rightarrow> string option" where
  "fgets n content =
     (if content = [] \<or> n \<le> 1 then None
      else Some (take (n - 1)
                  (takeWhile (\<lambda>c. c \<noteq> CHR 0x0A) content
                   @ (if CHR 0x0A \<in> set content then [CHR 0x0A] else []))))"

definition c_str :: "string \<Rightarrow> string" where
  "c_str s = takeWhile (\<lambda>c. c \<noteq> CHR 0x00) s"

text \<open>
  \<^verbatim>\<open>get_proc_self_stat_field\<close>: the rest of the line from the field with the given number
  on.  Fields after the second are counted from behind the last closing parenthesis;
  \<open>stat_skip\<close> is the loop that skips blanks and fields there.
\<close>

function stat_skip :: "int \<Rightarrow> string \<Rightarrow> string" where
  "stat_skip n ptr =
     (if ptr = [] then []
      else
        (let ptr1 = dropWhile (\<lambda>c. c = CHR '' '') ptr;
             n1 = n - 1
         in if n1 \<le> 0 then ptr1
            else stat_skip n1 (dropWhile (\<lambda>c. c \<noteq> CHR '' '') ptr1)))"
  by pat_completeness auto
termination
proof (relation "measure (\<lambda>(n, ptr). length ptr)")
  show "wf (measure (\<lambda>(n, ptr). length ptr))" by simp
next
  fix n :: int and ptr ptr1 :: string and n1 :: int
  assume ne: "ptr \<noteq> []" and p1: "ptr1 = dropWhile (\<lambda>c. c = CHR '' '') ptr"
  obtain c cs where c: "ptr = c # cs" using ne by (cases ptr) auto
  have l: "length (dropWhile P xs) \<le> length xs" for P and xs :: string
    by (induction xs) auto
  have "length (dropWhile (\<lambda>c. c \<noteq> CHR '' '') ptr1) < length ptr"
  proof (cases "c = CHR '' ''")
    case True
    then have "ptr1 = dropWhile (\<lambda>c. c = CHR '' '') cs" using p1 c by simp
    then have "length ptr1 \<le> length cs" using l by simp
    then show ?thesis using l [of "\<lambda>c. c \<noteq> CHR '' ''" ptr1] c by simp
  next
    case False
    then have "ptr1 = c # cs" using p1 c by simp
    then show ?thesis using False l [of "\<lambda>c. c \<noteq> CHR '' ''" cs] c by simp
  qed
  then show "((n1, dropWhile (\<lambda>c. c \<noteq> CHR '' '') ptr1), (n, ptr))
      \<in> measure (\<lambda>(n, ptr). length ptr)"
    by simp
qed

declare stat_skip.simps [simp del]

definition get_proc_self_stat_field :: "string \<Rightarrow> int \<Rightarrow> string option" where
  "get_proc_self_stat_field buf num =
     (if num < 1 \<or> buf = [] then None
      else if num = 1 then Some buf
      else if num = 2 then
        (if CHR ''('' \<in> set buf then Some (dropWhile (\<lambda>c. c \<noteq> CHR ''('') buf) else None)
      else if CHR '')'' \<notin> set buf then None
      else Some (stat_skip (num - 2) (rev (takeWhile (\<lambda>c. c \<noteq> CHR '')'') (rev buf)))))"

text \<open>
  The loop of \<^verbatim>\<open>fault_get_by_proc\<close> over the lines of \<^verbatim>\<open>/proc/pid/status\<close>, with the
  counter \<^verbatim>\<open>got_fields\<close>.  It stops after two recognised lines, and returns -1 when
  the user name cannot be cached.
\<close>

fun status_scan ::
    "proc_sys \<Rightarrow> string list \<Rightarrow> nat \<Rightarrow> addr \<Rightarrow> sampler_state \<Rightarrow> int \<times> sampler_state" where
  "status_scan sys [] got_fields new_fault_info st = (0, st)"
| "status_scan sys (buffer # rest) got_fields new_fault_info st =
     (if take 7 buffer = ''VmSwap:'' then
        (let st1 = (case sscanf_lu sys (drop 8 buffer) of
                      None \<Rightarrow> st
                    | Some vm_swap' \<Rightarrow>
                        st\<lparr>heap := (heap st)(new_fault_info :=
                              (heap st new_fault_info)\<lparr>vm_swap := vm_swap'\<rparr>)\<rparr>)
         in if got_fields + 1 = 2 then (0, st1)
            else status_scan sys rest (got_fields + 1) new_fault_info st1)
      else if take 4 buffer = ''Uid:'' then
        (case sscanf_i sys (drop 5 buffer) of
           None \<Rightarrow>
             if got_fields + 1 = 2 then (0, st)
             else status_scan sys rest (got_fields + 1) new_fault_info st
         | Some uid \<Rightarrow>
             (let st1 = st\<lparr>heap := (heap st)(new_fault_info :=
                               (heap st new_fault_info)\<lparr>f_uid := uid\<rparr>)\<rparr>;
                  (uname, c) = uname_cache_find (uname_env sys) uid (caches st1);
                  st2 = st1\<lparr>caches := c, heap := (heap st1)(new_fault_info :=
                               (heap st1 new_fault_info)\<lparr>f_uname := uname\<rparr>)\<rparr>
              in if uname = None then (- 1, st2)
                 else if got_fields + 1 = 2 then (0, st2)
                 else status_scan sys rest (got_fields + 1) new_fault_info st2))
      else status_scan sys rest got_fields new_fault_info st)"

text \<open>
  \<^verbatim>\<open>fault_get_by_proc\<close> for the process \<open>pid\<close>, the allow-list \<^verbatim>\<open>pids\<close> and the sample
  list \<^verbatim>\<open>*fault_info\<close>: it returns its result, the new state and the new sample list.
  The calls of \<^verbatim>\<open>basename\<close> in the allow-list loop may cut the cached command line,
  which is written back to the process cache.
\<close>

definition fault_get_by_proc ::
    "proc_sys \<Rightarrow> pid_list_t list \<Rightarrow> pid_t \<Rightarrow> sampler_state \<Rightarrow> addr list
       \<Rightarrow> int \<times> sampler_state \<times> addr list" where
  "fault_get_by_proc sys pids pid st fault_info =
     (if getpgid sys = 0 then (0, st, fault_info)
      else
        case proc_cache_find_by_pid (proc_env sys) pid (caches st) of
          (None, c1) \<Rightarrow> (0, st\<lparr>caches := c1\<rparr>, fault_info)
        | (Some proc, c1) \<Rightarrow>
            (case proc_mem c1 proc of
               None \<Rightarrow> (0, st\<lparr>caches := c1\<rparr>, fault_info)
             | Some pr \<Rightarrow>
                 if kernel_thread pr then (0, st\<lparr>caches := c1\<rparr>, fault_info)
                 else
                   (let (found, cmdline') =
                          (if pids = [] then (True, p_cmdline pr)
                           else pid_list_scan pids pid (p_cmdline pr));
                        st2 = st\<lparr>caches := c1\<lparr>proc_mem :=
                                 (proc_mem c1)(proc \<mapsto> pr\<lparr>p_cmdline := cmdline'\<rparr>)\<rparr>\<rparr>
                    in if \<not> found then (0, st2, fault_info)
                       else
                         case fault_cache_alloc (calloc_fault sys) st2 of
                           (None, st3) \<Rightarrow> (- 1, st3, fault_info)
                         | (Some new_fault_info, st3) \<Rightarrow>
                             (case Option.bind (proc_stat sys) (fgets 4095) of
                                None \<Rightarrow> (- 1, fault_cache_free new_fault_info st3, fault_info)
                              | Some buffer \<Rightarrow>
                                  (case get_proc_self_stat_field (c_str buffer) 10 of
                                     None \<Rightarrow>
                                       (- 1, fault_cache_free new_fault_info st3, fault_info)
                                   | Some ptr \<Rightarrow>
                                       (let r1 = (case sscanf_lu_u_lu sys ptr of
                                                    None \<Rightarrow> heap st3 new_fault_info
                                                  | Some (min_fault', maj_fault') \<Rightarrow>
                                                      (heap st3 new_fault_info)
                                                        \<lparr>min_fault := min_fault',
                                                         maj_fault := maj_fault'\<rparr>);
                                            (proc', c3) =
                                              proc_cache_find_by_pid (proc_env sys) pid
                                                (caches st3);
                                            st4 = st3\<lparr>caches := c3,
                                                     heap := (heap st3)(new_fault_info :=
                                                       r1\<lparr>f_pid := pid, f_proc := proc',
                                                          f_uid := 0, f_uname := None\<rparr>)\<rparr>
                                        in case proc_status sys of
                                             None \<Rightarrow> (0, st4, new_fault_info # fault_info)
                                           | Some lines \<Rightarrow>
                                               (let (ret, st5) =
                                                      status_scan sys lines 0 new_fault_info st4
                                                in (ret, st5, new_fault_info # fault_info))))))))"

text \<open>An example: a live process with the given command line, and the example state.\<close>

definition ex_proc_sys :: "string \<Rightarrow> proc_sys" where
  "ex_proc_sys cmdline =
     \<lparr>getpgid = 1,
      proc_env = init_env\<lparr>get_pid_cmdline := Some cmdline\<rparr>,
      calloc_fault = Some 7,
      proc_stat = Some ''100 (x) S 1 100 100 0 -1 4194560 123 0 4 0 0 0 0 0 20 0 1'',
      sscanf_lu_u_lu = (\<lambda>ptr. Some (123, 4)),
      proc_status = Some [''Name:   x'', ''Uid:    0       0       0       0'',
                          ''VmSwap:        0 kB''],
      sscanf_lu = (\<lambda>s. Some 0),
      sscanf_i = (\<lambda>s. Some 0),
      uname_env = init_env\<lparr>calloc := Some 2\<rparr>\<rparr>"

definition empty_sampler :: sampler_state where
  "empty_sampler = \<lparr>caches = empty_caches, heap = (\<lambda>a. zero_fault_info), fault_info_cache = []\<rparr>"

text \<open>
  The specification's words for the name test of the allow-list: a listed name without
  a path separator is matched against the basename of the command line, any other
  listed name against the command line itself (which must then be there).
\<close>

definition display_matches :: "string \<Rightarrow> string option \<Rightarrow> bool" where
  "display_matches name cmdline =
     (if CHR ''/'' \<in> set name
      then (case cmdline of None \<Rightarrow> False | Some cmd \<Rightarrow> name_matches name cmd)
      else name_matches name (fst (xpg_basename cmdline)))"

section \<open>Proofs\<close>

subsection \<open>Rounding to double precision\<close>

text \<open>
  The facts about rounding that the formatter and the scheduler need: the bounds of
  \<open>ilog2\<close>; rounding is monotone, leaves a double as it is, and is off by at most half
  a unit in the last place.
\<close>

lemma ilog2_bounds:
  assumes "0 < x"
  shows "2 powi ilog2 x \<le> x" and "x < 2 powi (ilog2 x + 1)"
proof -
  have "2 powi ilog2 x \<le> x \<and> x < 2 powi (ilog2 x + 1)"
  proof (cases "1 \<le> x")
    case True
    define n where "n = \<lfloor>x\<rfloor>"
    have n: "1 \<le> n" using True by (simp add: n_def le_floor_iff)
    have b: "2 ^ nat (bitlen n - 1) \<le> n" "n < 2 ^ nat (bitlen n)"
      using bitlen_bounds [of n] n by simp_all
    have b1: "1 \<le> bitlen n" using n by (simp add: bitlen_alt_def)
    have i: "ilog2 x = bitlen n - 1" using True by (simp add: ilog2_def n_def)
    have "(2 :: rat) powi (bitlen n - 1) = of_int (2 ^ nat (bitlen n - 1))"
      using b1 by (simp add: power_int_def)
    also have "\<dots> \<le> of_int n" using b(1) by (simp only: of_int_le_iff)
    also have "\<dots> \<le> x" by (simp add: n_def)
    finally have lo: "2 powi (bitlen n - 1) \<le> x" .
    have "n + 1 \<le> 2 ^ nat (bitlen n)" using b(2) by simp
    then have "(of_int (n + 1) :: rat) \<le> of_int (2 ^ nat (bitlen n))" by (simp only: of_int_le_iff)
    moreover have "x < of_int (n + 1)" using floor_correct [of x] by (simp add: n_def)
    moreover have "(2 :: rat) powi (bitlen n) = of_int (2 ^ nat (bitlen n))"
      using b1 by (simp add: power_int_def)
    ultimately have hi: "x < 2 powi (bitlen n)" by simp
    show ?thesis using lo hi by (simp add: i)
  next
    case False
    then have x1: "x < 1" by simp
    define y where "y = 1 / x"
    have y1: "1 < y" using assms x1 by (simp add: y_def)
    define m where "m = \<lceil>y\<rceil> - 1"
    have m: "1 \<le> m" using y1 by (simp add: m_def less_ceiling_iff)
    have b: "2 ^ nat (bitlen m - 1) \<le> m" "m < 2 ^ nat (bitlen m)"
      using bitlen_bounds [of m] m by simp_all
    have b1: "1 \<le> bitlen m" using m by (simp add: bitlen_alt_def)
    have i: "ilog2 x = - bitlen m" using False by (simp add: ilog2_def m_def y_def)
    have "m + 1 \<le> 2 ^ nat (bitlen m)" using b(2) by simp
    then have "(of_int (m + 1) :: rat) \<le> of_int (2 ^ nat (bitlen m))" by (simp only: of_int_le_iff)
    moreover have "y \<le> of_int (m + 1)" using ceiling_correct [of y] by (simp add: m_def)
    ultimately have "y \<le> 2 ^ nat (bitlen m)" by simp
    then have "1 / 2 ^ nat (bitlen m) \<le> 1 / y"
      using y1 by (intro divide_left_mono) simp_all
    then have lo: "2 powi (- bitlen m) \<le> x"
      using b1 assms by (simp add: power_int_def y_def field_simps)
    have my: "of_int m < y" using ceiling_correct [of y] by (simp add: m_def)
    have "(of_int (2 ^ nat (bitlen m - 1)) :: rat) \<le> of_int m" using b(1) by (simp only: of_int_le_iff)
    then have "(2 :: rat) ^ nat (bitlen m - 1) \<le> of_int m" by simp
    then have "2 ^ nat (bitlen m - 1) < y" using my by linarith
    moreover have y0: "0 < y" using y1 by simp
    ultimately have "1 / y < 1 / 2 ^ nat (bitlen m - 1)"
      by (intro divide_strict_left_mono) simp_all
    moreover have "(2 :: rat) powi (- bitlen m + 1) = 1 / 2 ^ nat (bitlen m - 1)"
      using b1 by (simp add: power_int_def field_simps)
    ultimately have hi: "x < 2 powi (- bitlen m + 1)" using assms by (simp add: y_def)
    show ?thesis using lo hi by (simp add: i)
  qed
  then show "2 powi ilog2 x \<le> x" and "x < 2 powi (ilog2 x + 1)" by simp_all
qed

lemma powi_less_cancel:
  assumes "(2 :: rat) powi a < 2 powi b"
  shows "a < b"
proof (rule ccontr)
  assume "\<not> a < b"
  then have "(2 :: rat) powi b \<le> 2 powi a" by (intro power_int_increasing) simp_all
  then show False using assms by simp
qed

lemma powi_of_int: "0 \<le> j \<Longrightarrow> (2 :: rat) powi j = of_int (2 ^ nat j)"
  by (simp add: power_int_def)

lemma ilog2_mono:
  assumes "0 < x" and "x \<le> y"
  shows "ilog2 x \<le> ilog2 y"
proof -
  have "2 powi ilog2 x \<le> x" using assms(1) by (rule ilog2_bounds)
  also have "x \<le> y" by fact
  also have "y < 2 powi (ilog2 y + 1)" using assms by (intro ilog2_bounds) simp
  finally have "ilog2 x < ilog2 y + 1" by (rule powi_less_cancel)
  then show ?thesis by simp
qed

lemma ilog2_less:
  assumes "0 < x" and "x < 2 powi k"
  shows "ilog2 x < k"
proof -
  have "2 powi ilog2 x \<le> x" using assms(1) by (rule ilog2_bounds)
  also have "x < 2 powi k" by fact
  finally show ?thesis by (rule powi_less_cancel)
qed

lemma rne_cases: "rne r = \<lfloor>r\<rfloor> \<or> rne r = \<lfloor>r\<rfloor> + 1"
  by (simp add: rne_def Let_def)

lemma rne_of_int [simp]: "rne (of_int n) = n"
  by (simp add: rne_def)

lemma rne_error: "\<bar>of_int (rne r) - r\<bar> \<le> 1 / 2"
proof -
  have "of_int \<lfloor>r\<rfloor> \<le> r" "r < of_int \<lfloor>r\<rfloor> + 1" using floor_correct [of r] by simp_all
  then show ?thesis by (auto simp: rne_def Let_def)
qed

lemma rne_mono:
  assumes "r \<le> s"
  shows "rne r \<le> rne s"
proof -
  have fl: "\<lfloor>r\<rfloor> \<le> \<lfloor>s\<rfloor>" using assms by (rule floor_mono)
  show ?thesis
  proof (cases "\<lfloor>r\<rfloor> = \<lfloor>s\<rfloor>")
    case True
    then have "r - of_int \<lfloor>r\<rfloor> \<le> s - of_int \<lfloor>s\<rfloor>" using assms by simp
    then show ?thesis using True by (auto simp: rne_def Let_def)
  next
    case False
    then have "\<lfloor>r\<rfloor> + 1 \<le> \<lfloor>s\<rfloor>" using fl by simp
    moreover have "rne r \<le> \<lfloor>r\<rfloor> + 1" using rne_cases [of r] by auto
    moreover have "\<lfloor>s\<rfloor> \<le> rne s" using rne_cases [of s] by auto
    ultimately show ?thesis by simp
  qed
qed

lemma rne_nonneg: "0 \<le> r \<Longrightarrow> 0 \<le> rne r"
  using rne_mono [of 0 r] rne_of_int [of 0] by simp

lemma quantum_exp_mono: "0 < x \<Longrightarrow> x \<le> y \<Longrightarrow> quantum_exp x \<le> quantum_exp y"
  using ilog2_mono [of x y] by (simp add: quantum_exp_def)

lemma round_pos_nonneg: "0 \<le> y \<Longrightarrow> 0 \<le> round_pos y"
  by (simp add: round_pos_def rne_nonneg)

lemma round_pos_upper:
  assumes "0 < y"
  shows "round_pos y \<le> 2 powi (ilog2 y + 1)"
proof -
  define k where "k = quantum_exp y"
  define j where "j = ilog2 y + 1 - k"
  have p: "(0 :: rat) < 2 powi k" by simp
  have "y < 2 powi (ilog2 y + 1)" using assms by (rule ilog2_bounds)
  then have "y / 2 powi k \<le> 2 powi (ilog2 y + 1) / 2 powi k"
    using p by (simp add: divide_right_mono)
  also have "\<dots> = 2 powi j" by (simp add: power_int_diff j_def)
  finally have q: "y / 2 powi k \<le> 2 powi j" .
  have r: "round_pos y = of_int (rne (y / 2 powi k)) * 2 powi k"
    by (simp add: round_pos_def k_def)
  show ?thesis
  proof (cases "0 \<le> j")
    case True
    have "rne (2 powi j) = 2 ^ nat j"
      by (simp only: powi_of_int [OF True] rne_of_int)
    moreover have "rne (y / 2 powi k) \<le> rne (2 powi j)" using q by (rule rne_mono)
    ultimately have "rne (y / 2 powi k) \<le> 2 ^ nat j" by simp
    then have "(of_int (rne (y / 2 powi k)) :: rat) \<le> of_int (2 ^ nat j)"
      by (simp only: of_int_le_iff)
    then have "(of_int (rne (y / 2 powi k)) :: rat) \<le> 2 powi j"
      using True by (simp add: powi_of_int)
    then have "round_pos y \<le> 2 powi j * 2 powi k"
      unfolding r using p by (intro mult_right_mono) simp_all
    also have "\<dots> = 2 powi (ilog2 y + 1)"
      by (simp add: j_def flip: power_int_add)
    finally show ?thesis .
  next
    case False
    then have "j \<le> - 1" by simp
    then have "(2 :: rat) powi j \<le> 2 powi (- 1)" by (intro power_int_increasing) simp_all
    with q have "y / 2 powi k \<le> 2 powi (- 1)" by (rule order_trans)
    moreover have "(2 :: rat) powi (- 1) = 1 / 2" by simp
    ultimately have "y / 2 powi k \<le> 1 / 2" by (simp only:)
    then have "rne (y / 2 powi k) \<le> rne (1 / 2)" by (rule rne_mono)
    moreover have "rne (1 / 2) = 0"
    proof -
      have "\<lfloor>1 / 2 :: rat\<rfloor> = 0" by (rule floor_unique) simp_all
      then show ?thesis by (simp add: rne_def)
    qed
    ultimately have "(of_int (rne (y / 2 powi k)) :: rat) \<le> 0" by simp
    then have "round_pos y \<le> 0"
      unfolding r using p by (simp add: mult_le_0_iff)
    also have "(0 :: rat) \<le> 2 powi (ilog2 y + 1)" by simp
    finally show ?thesis .
  qed
qed

lemma round_pos_lower:
  assumes "0 < y" and "- 1074 \<le> ilog2 y - 52"
  shows "2 powi ilog2 y \<le> round_pos y"
proof -
  define k where "k = ilog2 y - 52"
  have qe: "quantum_exp y = k" using assms(2) by (simp add: quantum_exp_def k_def)
  have p: "(0 :: rat) < 2 powi k" by simp
  have "2 powi ilog2 y \<le> y" using assms(1) by (rule ilog2_bounds)
  then have "2 powi ilog2 y / 2 powi k \<le> y / 2 powi k"
    using p by (simp add: divide_right_mono)
  moreover have "(2 :: rat) powi ilog2 y / 2 powi k = of_int (2 ^ 52)"
    by (simp add: k_def flip: power_int_diff)
  ultimately have "rne (of_int (2 ^ 52)) \<le> rne (y / 2 powi k)"
    by (intro rne_mono) simp
  then have "2 ^ 52 \<le> rne (y / 2 powi k)" by (simp only: rne_of_int)
  then have "(of_int (2 ^ 52) :: rat) \<le> of_int (rne (y / 2 powi k))"
    by (simp only: of_int_le_iff)
  then have "of_int (2 ^ 52) * 2 powi k \<le> round_pos y"
    unfolding round_pos_def qe using p by (intro mult_right_mono) simp_all
  moreover have "(of_int (2 ^ 52) :: rat) * 2 powi k = 2 powi ilog2 y"
  proof -
    have "(2 :: rat) powi (52 + k) = 2 powi 52 * 2 powi k" by (rule power_int_add) simp
    then show ?thesis by (simp add: k_def)
  qed
  ultimately show ?thesis by simp
qed

lemma round_pos_mono:
  assumes "0 < x" and "x \<le> y"
  shows "round_pos x \<le> round_pos y"
proof -
  have y: "0 < y" using assms by simp
  have le: "quantum_exp x \<le> quantum_exp y" using assms by (rule quantum_exp_mono)
  show ?thesis
  proof (cases "quantum_exp x = quantum_exp y")
    case True
    have p: "(0 :: rat) < 2 powi quantum_exp y" by simp
    have "x / 2 powi quantum_exp y \<le> y / 2 powi quantum_exp y"
      using assms(2) p by (simp add: divide_right_mono)
    then have "rne (x / 2 powi quantum_exp y) \<le> rne (y / 2 powi quantum_exp y)"
      by (rule rne_mono)
    then have "(of_int (rne (x / 2 powi quantum_exp y)) :: rat)
        \<le> of_int (rne (y / 2 powi quantum_exp y))"
      by (simp only: of_int_le_iff)
    then show ?thesis
      unfolding round_pos_def True using p by (intro mult_right_mono) simp_all
  next
    case False
    then have lt: "quantum_exp x < quantum_exp y" using le by simp
    then have ny: "- 1074 < quantum_exp y" by (simp add: quantum_exp_def)
    then have n: "- 1074 \<le> ilog2 y - 52" and qy: "quantum_exp y = ilog2 y - 52"
      by (simp_all add: quantum_exp_def max_def split: if_splits)
    have "ilog2 x - 52 \<le> quantum_exp x" by (simp add: quantum_exp_def)
    then have "ilog2 x + 1 \<le> ilog2 y" using lt qy by simp
    then have "(2 :: rat) powi (ilog2 x + 1) \<le> 2 powi ilog2 y"
      by (intro power_int_increasing) simp_all
    moreover have "round_pos x \<le> 2 powi (ilog2 x + 1)" using assms(1) by (rule round_pos_upper)
    moreover have "2 powi ilog2 y \<le> round_pos y" using y n by (rule round_pos_lower)
    ultimately show ?thesis by simp
  qed
qed

lemma powi_53: "(of_int (2 ^ 53) :: rat) * 2 powi k = 2 powi (53 + k)"
proof -
  have "(2 :: rat) powi (53 + k) = 2 powi 53 * 2 powi k" by (rule power_int_add) simp
  then show ?thesis by simp
qed

lemma round_pos_exact:
  assumes "0 < m" and "m < 2 ^ 53" and "- 1074 \<le> k"
  shows "round_pos (of_int m * 2 powi k) = of_int m * 2 powi k"
proof -
  define y :: rat where "y = of_int m * 2 powi k"
  define q where "q = quantum_exp y"
  have y: "0 < y" using assms(1) by (simp add: y_def)
  have "(of_int m :: rat) < of_int (2 ^ 53)" using assms(2) by (simp only: of_int_less_iff)
  then have "y < of_int (2 ^ 53) * 2 powi k"
    unfolding y_def by (intro mult_strict_right_mono) simp_all
  then have "y < 2 powi (53 + k)" by (simp only: powi_53)
  then have "ilog2 y < 53 + k" using y by (intro ilog2_less)
  then have qk: "q \<le> k" using assms(3) by (simp add: q_def quantum_exp_def)
  have "(2 :: rat) powi k = 2 powi (k - q) * 2 powi q"
    by (simp flip: power_int_add)
  then have "y / 2 powi q = of_int m * 2 powi (k - q)" by (simp add: y_def)
  also have "\<dots> = of_int (m * 2 ^ nat (k - q))" using qk by (simp add: powi_of_int)
  finally have "rne (y / 2 powi q) = m * 2 ^ nat (k - q)" by (simp only: rne_of_int)
  then have "round_pos y = of_int (m * 2 ^ nat (k - q)) * 2 powi q"
    by (simp add: round_pos_def q_def)
  also have "\<dots> = of_int m * (2 powi (k - q) * 2 powi q)" using qk by (simp add: powi_of_int)
  also have "\<dots> = y" by (simp add: y_def flip: power_int_add)
  finally show ?thesis by (simp add: y_def)
qed

lemma round_pos_error:
  "\<bar>round_pos y - y\<bar> \<le> 2 powi quantum_exp y / 2"
proof -
  define q :: rat where "q = 2 powi quantum_exp y"
  have q: "0 < q" by (simp add: q_def)
  have "\<bar>of_int (rne (y / q)) - y / q\<bar> \<le> 1 / 2" by (rule rne_error)
  then have "\<bar>of_int (rne (y / q)) - y / q\<bar> * q \<le> 1 / 2 * q"
    using q by (intro mult_right_mono) simp_all
  moreover have "\<bar>of_int (rne (y / q)) - y / q\<bar> * q = \<bar>of_int (rne (y / q)) * q - y\<bar>"
  proof -
    have "\<bar>of_int (rne (y / q)) - y / q\<bar> * q = \<bar>(of_int (rne (y / q)) - y / q) * q\<bar>"
      using q by (simp add: abs_mult)
    also have "(of_int (rne (y / q)) - y / q) * q = of_int (rne (y / q)) * q - y"
      using q by (simp add: algebra_simps)
    finally show ?thesis .
  qed
  ultimately have "\<bar>of_int (rne (y / q)) * q - y\<bar> \<le> 1 / 2 * q" by (simp only:)
  then show ?thesis unfolding round_pos_def q_def [symmetric] by simp
qed

lemma round_double_0 [simp]: "round_double 0 = 0"
  by (simp add: round_double_def)

lemma round_double_minus: "round_double (- x) = - round_double x"
  by (simp add: round_double_def)

lemma round_double_nonneg: "0 \<le> x \<Longrightarrow> 0 \<le> round_double x"
  by (simp add: round_double_def round_pos_nonneg)

lemma round_double_nonpos: "x \<le> 0 \<Longrightarrow> round_double x \<le> 0"
  using round_double_nonneg [of "- x"] by (simp add: round_double_minus)

lemma round_double_mono:
  assumes "x \<le> y"
  shows "round_double x \<le> round_double y"
proof -
  consider "x \<le> 0" "0 \<le> y" | "0 < x" | "y < 0" using assms by linarith
  then show ?thesis
  proof cases
    case 1
    then show ?thesis using round_double_nonpos [of x] round_double_nonneg [of y] by simp
  next
    case 2
    then show ?thesis using assms round_pos_mono [of x y] by (simp add: round_double_def)
  next
    case 3
    then have "0 < - y" "- y \<le> - x" using assms by simp_all
    then have "round_pos (- y) \<le> round_pos (- x)" by (rule round_pos_mono)
    then show ?thesis using 3 assms by (simp add: round_double_def)
  qed
qed

lemma round_double_exact:
  assumes "\<bar>m\<bar> < 2 ^ 53" and "- 1074 \<le> k"
  shows "round_double (of_int m * 2 powi k) = of_int m * 2 powi k"
proof -
  consider "m = 0" | "0 < m" | "m < 0" by linarith
  then show ?thesis
  proof cases
    case 1
    then show ?thesis by simp
  next
    case 2
    then have p: "0 < (of_int m :: rat) * 2 powi k" by simp
    have a: "(of_int m :: rat) * 2 powi k \<noteq> 0" "\<not> (of_int m :: rat) * 2 powi k < 0"
      using 2 by (simp_all add: not_less)
    have "m < 2 ^ 53" using assms(1) by simp
    from round_pos_exact [OF 2 this assms(2)] show ?thesis
      by (simp only: round_double_def a if_False)
  next
    case 3
    then have n: "(of_int m :: rat) * 2 powi k < 0" by (simp add: mult_less_0_iff)
    have a: "(of_int m :: rat) * 2 powi k \<noteq> 0" using 3 by simp
    have "round_pos (of_int (- m) * 2 powi k) = of_int (- m) * 2 powi k"
      using 3 assms by (intro round_pos_exact) simp_all
    then have "round_pos (- (of_int m * 2 powi k)) = - (of_int m * 2 powi k)" by simp
    then show ?thesis by (simp only: round_double_def a n if_False if_True minus_minus)
  qed
qed

lemma round_double_of_int:
  "\<bar>m\<bar> < 2 ^ 53 \<Longrightarrow> round_double (of_int m) = of_int m"
  using round_double_exact [of m 0] by simp



lemma round_double_error:
  "\<bar>round_double x - x\<bar> \<le> 2 powi quantum_exp \<bar>x\<bar> / 2"
proof -
  consider "x = 0" | "0 < x" | "x < 0" by linarith
  then show ?thesis
  proof cases
    case 1
    then show ?thesis by simp
  next
    case 2
    then show ?thesis using round_pos_error [of x] by (simp add: round_double_def)
  next
    case 3
    then have "\<bar>round_double x - x\<bar> = \<bar>round_pos (- x) - (- x)\<bar>"
      by (simp add: round_double_def)
    then show ?thesis using round_pos_error [of "- x"] 3 by simp
  qed
qed

lemma ilog2_unique:
  assumes "0 < x" and "2 powi e \<le> x" and "x < 2 powi (e + 1)"
  shows "ilog2 x = e"
proof -
  have "2 powi ilog2 x \<le> x" using assms(1) by (rule ilog2_bounds)
  then have "(2 :: rat) powi ilog2 x < 2 powi (e + 1)" using assms(3) by simp
  then have a: "ilog2 x < e + 1" by (rule powi_less_cancel)
  have "x < 2 powi (ilog2 x + 1)" using assms(1) by (rule ilog2_bounds)
  then have "(2 :: rat) powi e < 2 powi (ilog2 x + 1)" using assms(2) by simp
  then have "e < ilog2 x + 1" by (rule powi_less_cancel)
  then show ?thesis using a by simp
qed

lemma round_double_normal:
  assumes "2 powi e \<le> x" and "x < 2 powi (e + 1)" and "- 1022 \<le> e"
  shows "round_double x = of_int (rne (x / 2 powi (e - 52))) * 2 powi (e - 52)"
proof -
  have x: "0 < x" by (rule less_le_trans [OF _ assms(1)]) simp
  have "ilog2 x = e" using x assms(1,2) by (rule ilog2_unique)
  then have "quantum_exp x = e - 52" using assms(3) by (simp add: quantum_exp_def)
  then show ?thesis using x by (simp add: round_double_def round_pos_def)
qed

lemma rne_half_odd: "odd n \<Longrightarrow> rne (of_int n + 1 / 2) = n + 1"
  and rne_half_even: "even n \<Longrightarrow> rne (of_int n + 1 / 2) = n"
proof -
  have f: "\<lfloor>of_int n + 1 / 2 :: rat\<rfloor> = n" by (rule floor_unique) simp_all
  show "odd n \<Longrightarrow> rne (of_int n + 1 / 2) = n + 1" by (simp add: rne_def f)
  show "even n \<Longrightarrow> rne (of_int n + 1 / 2) = n" by (simp add: rne_def f)
qed




lemma fl_exact:
  assumes "\<bar>m\<bar> < 2 ^ 53" and "- 1074 \<le> k" and "\<bar>of_int m * 2 powi k :: rat\<bar> < 2 ^ 1024"
  shows "fl (of_int m * 2 powi k) = Some (of_int m * 2 powi k)"
  using assms by (simp add: fl_def round_double_exact)



lemma fl_dyadic:
  assumes "\<bar>m\<bar> < 2 ^ 53" and "n \<le> 1074"
  shows "fl (of_int m / 2 ^ n) = Some (of_int m / 2 ^ n)"
proof -
  have e: "(of_int m :: rat) / 2 ^ n = of_int m * 2 powi (- int n)"
    by (simp add: power_int_minus field_simps)
  have "\<bar>of_int m :: rat\<bar> < of_int (2 ^ 53)"
    using assms(1) by (simp only: of_int_abs [symmetric] of_int_less_iff)
  moreover have "(2 :: rat) powi (- int n) \<le> 1" by (simp add: power_int_minus field_simps)
  ultimately have "\<bar>of_int m :: rat\<bar> * 2 powi (- int n) < of_int (2 ^ 53) * 1"
    by (intro mult_less_le_imp_less) simp_all
  then have "\<bar>of_int m * 2 powi (- int n) :: rat\<bar> < 2 ^ 1024" by (simp add: abs_mult)
  then show ?thesis
    unfolding e using assms by (intro fl_exact) simp_all
qed


lemma is_double_dyadic:
  "\<bar>m\<bar> < 2 ^ 53 \<Longrightarrow> n \<le> 1074 \<Longrightarrow> is_double (of_int m / 2 ^ n)"
  by (simp add: is_double_def fl_dyadic)

subsection \<open>The numeric formatter\<close>

lemma dec_digits_not_Nil: "dec_digits n \<noteq> []"
  by (subst dec_digits.simps) simp

lemma length_dec_digits_le: "n < 10 ^ k \<Longrightarrow> 0 < k \<Longrightarrow> length (dec_digits n) \<le> k"
proof (induction n arbitrary: k rule: dec_digits.induct)
  case (1 n)
  show ?case
  proof (cases "n < 10")
    case True
    then show ?thesis using "1.prems" by (subst dec_digits.simps) simp
  next
    case False
    then obtain j where k: "k = Suc j" and j: "0 < j"
      using "1.prems" by (cases k; cases "k - 1") auto
    have "n div 10 < 10 ^ j" using "1.prems" k by (simp add: less_mult_imp_div_less)
    then have "length (dec_digits (n div 10)) \<le> j" using "1.IH" [OF False _ j] by simp
    then show ?thesis using False k by (subst dec_digits.simps) simp
  qed
qed

lemma length_dec_digits_gt: "10 ^ k \<le> n \<Longrightarrow> k < length (dec_digits n)"
proof (induction n arbitrary: k rule: dec_digits.induct)
  case (1 n)
  show ?case
  proof (cases k)
    case 0
    then show ?thesis using dec_digits_not_Nil [of n] by simp
  next
    case (Suc j)
    have a: "(10::nat) \<le> 10 * 10 ^ j" by simp
    have b: "10 * 10 ^ j \<le> n" using "1.prems" Suc by simp
    have "10 \<le> n" using a b by (rule le_trans)
    then have False: "\<not> n < 10" by simp
    have "10 ^ j \<le> n div 10" using "1.prems" Suc by (simp add: less_eq_div_iff_mult_less_eq)
    then have "j < length (dec_digits (n div 10))" using "1.IH" [OF False] by simp
    then show ?thesis using False Suc by (subst dec_digits.simps) simp
  qed
qed

lemma replicate_2: "replicate 2 c = [c, c]"
  by (simp add: numeral_2_eq_2)

lemma replicate_5: "replicate 5 c = [c, c, c, c, c]"
  by (simp add: eval_nat_numeral)


lemma sint_int64_less: "sint (val :: int64) < 9223372036854775808"
  using sint_lt [of val] by simp

lemma length_fmt_6_0f: "length (fmt_6_0f s) = max 6 (length (dec_digits (nat (rne s))))"
  by (simp add: fmt_6_0f_def pad_left_def)

lemma length_fmt_6_0f_eq_6: "length (fmt_6_0f s) = 6 \<longleftrightarrow> rne s < 1000000"
proof -
  let ?m = "nat (rne s)"
  have "length (dec_digits ?m) \<le> 6 \<longleftrightarrow> ?m < 10 ^ 6"
  proof
    assume "length (dec_digits ?m) \<le> 6"
    then have "\<not> 10 ^ 6 \<le> ?m" using length_dec_digits_gt [of 6 ?m] by linarith
    then show "?m < 10 ^ 6" by linarith
  next
    assume "?m < 10 ^ 6"
    then show "length (dec_digits ?m) \<le> 6" by (rule length_dec_digits_le) simp
  qed
  then show ?thesis by (auto simp: length_fmt_6_0f max_def)
qed

lemma length_fmt_6_0f_le_10: "rne s < 10000000000 \<Longrightarrow> length (fmt_6_0f s) \<le> 10"
  using length_dec_digits_le [of "nat (rne s)" 10] by (simp add: length_fmt_6_0f)

lemma rne_numeral [simp]: "rne (numeral n) = numeral n"
  using rne_of_int [of "numeral n"] by simp

lemma rne_below_half:
  assumes "x \<le> of_int n + c" and "c < 1 / 2" and "0 \<le> c"
  shows "rne x \<le> n"
proof -
  have f: "\<lfloor>of_int n + c\<rfloor> = n" using assms(2,3) by (intro floor_unique) simp_all
  have "rne x \<le> rne (of_int n + c)" using assms(1) by (rule rne_mono)
  also have "\<dots> = n" using assms(2) by (simp add: rne_def f)
  finally show ?thesis .
qed

text \<open>
  The rounded quotient stays below a million exactly as long as the exact quotient stays
  below 999999.5: a quotient below it is at most a double \<open>c\<close> that is itself below
  999999.5, and 999999.5 is a double that rounds up to the even 1000000.
\<close>

lemma scaled_threshold:
  assumes c: "round_double c = c" "c < 1999999 / 2" "999999 \<le> c"
    and lo: "x < 1999999 / 2 \<Longrightarrow> x \<le> c"
  shows "rne (round_double x) < 1000000 \<longleftrightarrow> x < 1999999 / 2"
proof
  assume "x < 1999999 / 2"
  then have "x \<le> c" by (rule lo)
  then have "round_double x \<le> round_double c" by (rule round_double_mono)
  then have "round_double x \<le> of_int 999999 + (c - 999999)" using c(1) by simp
  moreover have "c - 999999 < 1 / 2" "0 \<le> c - 999999" using c(2,3) by simp_all
  ultimately have "rne (round_double x) \<le> 999999" by (rule rne_below_half)
  then show "rne (round_double x) < 1000000" by simp
next
  assume a: "rne (round_double x) < 1000000"
  show "x < 1999999 / 2"
  proof (rule ccontr)
    assume "\<not> x < 1999999 / 2"
    then have "1999999 / 2 \<le> x" by simp
    then have "round_double (1999999 / 2) \<le> round_double x" by (rule round_double_mono)
    moreover have "round_double (1999999 / 2) = 1999999 / 2"
      using round_double_exact [of 1999999 "- 1"] by simp
    ultimately have "rne (1999999 / 2) \<le> rne (round_double x)" by (simp add: rne_mono)
    moreover have "rne (1999999 / 2) = 1000000"
      using rne_half_odd [of 999999] by simp
    ultimately show False using a by simp
  qed
qed

lemma round_double_int: "0 \<le> p \<Longrightarrow> p < 2 ^ 53 \<Longrightarrow> round_double (of_int p) = of_int p"
  by (rule round_double_of_int) simp

lemma scaled_k:
  assumes "0 \<le> p" and "p < 1000000000"
  shows "rne (round_double (round_double (of_int p) / 1000)) < 1000000 \<longleftrightarrow> p < 999999500"
proof -
  have v: "round_double (of_int p) = of_int p" using assms by (intro round_double_int) simp_all
  have c: "round_double (2047998975 / 2048) = 2047998975 / 2048"
    using round_double_exact [of 2047998975 "- 11"] by simp
  have "rne (round_double (of_int p / 1000)) < 1000000 \<longleftrightarrow> (of_int p / 1000 :: rat) < 1999999 / 2"
  proof (rule scaled_threshold [OF c])
    assume "(of_int p / 1000 :: rat) < 1999999 / 2"
    then have "(of_int p :: rat) < of_int 999999500" by simp
    then have "p < 999999500" by (simp only: of_int_less_iff)
    then have "p \<le> 999999499" by simp
    then have "(of_int p :: rat) \<le> of_int 999999499" by (simp only: of_int_le_iff)
    then show "(of_int p / 1000 :: rat) \<le> 2047998975 / 2048" by simp
  qed simp_all
  also have "(of_int p / 1000 :: rat) < 1999999 / 2 \<longleftrightarrow> (of_int p :: rat) < of_int 999999500"
    by simp
  also have "\<dots> \<longleftrightarrow> p < 999999500" by (simp only: of_int_less_iff)
  finally show ?thesis by (simp only: v)
qed

lemma scaled_M:
  assumes "0 \<le> p" and "p < 1000000000000"
  shows "rne (round_double (round_double (of_int p) / 1000000)) < 1000000
           \<longleftrightarrow> p < 999999500000"
proof -
  have v: "round_double (of_int p) = of_int p" using assms by (intro round_double_int) simp_all
  have c: "round_double (2097150951423 / 2097152) = 2097150951423 / 2097152"
    using round_double_exact [of 2097150951423 "- 21"] by simp
  have "rne (round_double (of_int p / 1000000)) < 1000000
          \<longleftrightarrow> (of_int p / 1000000 :: rat) < 1999999 / 2"
  proof (rule scaled_threshold [OF c])
    assume "(of_int p / 1000000 :: rat) < 1999999 / 2"
    then have "(of_int p :: rat) < of_int 999999500000" by simp
    then have "p < 999999500000" by (simp only: of_int_less_iff)
    then have "p \<le> 999999499999" by simp
    then have "(of_int p :: rat) \<le> of_int 999999499999" by (simp only: of_int_le_iff)
    then show "(of_int p / 1000000 :: rat) \<le> 2097150951423 / 2097152" by simp
  qed simp_all
  also have "(of_int p / 1000000 :: rat) < 1999999 / 2
               \<longleftrightarrow> (of_int p :: rat) < of_int 999999500000"
    by simp
  also have "\<dots> \<longleftrightarrow> p < 999999500000" by (simp only: of_int_less_iff)
  finally show ?thesis by (simp only: v)
qed

lemma scaled_G:
  assumes "0 \<le> p"
  shows "rne (round_double (round_double (of_int p) / 1000000000)) < 1000000
           \<longleftrightarrow> p < 999999500000000"
proof (cases "p < 999999500000000")
  case True
  have v: "round_double (of_int p) = of_int p" using assms True by (intro round_double_int) simp_all
  have c: "round_double (2147482574258175 / 2147483648) = 2147482574258175 / 2147483648"
    using round_double_exact [of 2147482574258175 "- 31"] by simp
  have "rne (round_double (of_int p / 1000000000)) < 1000000
          \<longleftrightarrow> (of_int p / 1000000000 :: rat) < 1999999 / 2"
  proof (rule scaled_threshold [OF c])
    assume "(of_int p / 1000000000 :: rat) < 1999999 / 2"
    have "p \<le> 999999499999999" using True by simp
    then have "(of_int p :: rat) \<le> of_int 999999499999999" by (simp only: of_int_le_iff)
    then show "(of_int p / 1000000000 :: rat) \<le> 2147482574258175 / 2147483648" by simp
  qed simp_all
  moreover have "(of_int p / 1000000000 :: rat) < 1999999 / 2"
  proof -
    have "(of_int p :: rat) < of_int 999999500000000" using True by (simp only: of_int_less_iff)
    then show ?thesis by simp
  qed
  ultimately show ?thesis using True by (simp only: v simp_thms)
next
  case False
  then have "(of_int 999999500000000 :: rat) \<le> of_int p" by (simp only: of_int_le_iff)
  then have "round_double (of_int 999999500000000) \<le> round_double (of_int p)"
    by (rule round_double_mono)
  moreover have "round_double (of_int 999999500000000) = of_int 999999500000000"
    by (rule round_double_int) simp_all
  ultimately have "(999999500000000 :: rat) \<le> round_double (of_int p)" by simp
  then have "(1999999 / 2 :: rat) \<le> round_double (of_int p) / 1000000000" by simp
  then have "round_double (1999999 / 2) \<le> round_double (round_double (of_int p) / 1000000000)"
    by (rule round_double_mono)
  moreover have "round_double (1999999 / 2) = 1999999 / 2"
    using round_double_exact [of 1999999 "- 1"] by simp
  ultimately have "rne (1999999 / 2) \<le> rne (round_double (round_double (of_int p) / 1000000000))"
    by (simp add: rne_mono)
  moreover have "rne (1999999 / 2) = 1000000" using rne_half_odd [of 999999] by simp
  ultimately show ?thesis using False by simp
qed

lemma scaled_upper:
  assumes "p \<le> b" and "round_double (of_int b) = of_int b"
    and "(of_int b :: rat) / d \<le> 9999999999" and "0 < d"
  shows "rne (round_double (round_double (of_int p) / d)) < 10000000000"
proof -
  have r: "round_double 9999999999 = 9999999999"
    using round_double_of_int [of 9999999999] by simp
  have "(of_int p :: rat) \<le> of_int b" using assms(1) by (simp only: of_int_le_iff)
  then have "round_double (of_int p) \<le> round_double (of_int b)" by (rule round_double_mono)
  then have "round_double (of_int p) \<le> of_int b" by (simp only: assms(2))
  then have "round_double (of_int p) / d \<le> of_int b / d"
    using assms(4) by (simp add: divide_right_mono)
  then have "round_double (of_int p) / d \<le> 9999999999" using assms(3) by (rule order_trans)
  then have "round_double (round_double (of_int p) / d) \<le> round_double 9999999999"
    by (rule round_double_mono)
  then have "round_double (round_double (of_int p) / d) \<le> 9999999999" by (simp only: r)
  then have "rne (round_double (round_double (of_int p) / d)) \<le> rne 9999999999"
    by (rule rne_mono)
  then show ?thesis by simp
qed

lemma int64_to_str_12:
  "int64_to_str val 12 =
     (let pos_val = (if sint val < 0 then 0 else sint val);
          v = round_double (of_int pos_val)
      in if pos_val < 1000000 then fmt_6_0f v @ [CHR '' '']
         else if pos_val < 1000000000 then fmt_6_0f (round_double (v / 1000)) @ [CHR ''k'']
         else if pos_val < 1000000000000
           then fmt_6_0f (round_double (v / 1000000)) @ [CHR ''M'']
         else fmt_6_0f (round_double (v / 1000000000)) @ [CHR ''G''])"
proof -
  define p where "p = (if sint val < 0 then 0 else sint val)"
  have p: "0 \<le> p" "p < 9223372036854775808"
    using sint_int64_less [of val] by (auto simp: p_def)
  have b1: "rne (round_double (of_int p)) < 10000000000" if "p < 1000000"
  proof -
    have "round_double (of_int p) = of_int p" using p(1) that by (intro round_double_int) simp_all
    then show ?thesis using that by simp
  qed
  have b2: "rne (round_double (round_double (of_int p) / 1000)) < 10000000000"
    if "p < 1000000000"
  proof (rule scaled_upper [where b = 1000000000])
    show "p \<le> 1000000000" using that by simp
    show "round_double (of_int 1000000000) = of_int 1000000000"
      by (rule round_double_of_int) simp
  qed simp_all
  have b3: "rne (round_double (round_double (of_int p) / 1000000)) < 10000000000"
    if "p < 1000000000000"
  proof (rule scaled_upper [where b = 1000000000000])
    show "p \<le> 1000000000000" using that by simp
    show "round_double (of_int 1000000000000) = of_int 1000000000000"
      by (rule round_double_of_int) simp
  qed simp_all
  have b4: "rne (round_double (round_double (of_int p) / 1000000000)) < 10000000000"
  proof (rule scaled_upper [where b = 9223372036854775808])
    show "p \<le> 9223372036854775808" using p(2) by simp
    show "round_double (of_int 9223372036854775808) = of_int 9223372036854775808"
      using round_double_exact [of 1 63] by simp
  qed simp_all
  show ?thesis
    unfolding int64_to_str_def p_def [symmetric] Let_def
    using b1 b2 b3 b4 by (auto intro!: length_fmt_6_0f_le_10)
qed

lemma int64_to_str_last:
  "last (int64_to_str val 12) =
     (if sint val < 1000000 then CHR '' ''
      else if sint val < 1000000000 then CHR ''k''
      else if sint val < 1000000000000 then CHR ''M'' else CHR ''G'')"
  by (simp add: int64_to_str_12 Let_def)

lemma int64_to_str_width_ge: "7 \<le> length (int64_to_str val 12)"
  by (simp add: int64_to_str_12 Let_def length_fmt_6_0f)

lemma int64_to_str_width:
  "length (int64_to_str val 12) = 7 \<longleftrightarrow>
     sint val < 999999500
     \<or> (1000000000 \<le> sint val \<and> sint val < 999999500000)
     \<or> (1000000000000 \<le> sint val \<and> sint val < 999999500000000)"
proof -
  define p where "p = (if sint val < 0 then 0 else sint val)"
  have p: "0 \<le> p" by (simp add: p_def)
  have e: "sint val < c \<longleftrightarrow> p < c" if "0 < c" for c
    using that by (auto simp: p_def)
  have e': "c \<le> sint val \<longleftrightarrow> c \<le> p" if "0 < c" for c
    using that by (auto simp: p_def)
  have u: "rne (round_double (of_int p)) < 1000000 \<longleftrightarrow> p < 1000000" if "p < 1000000"
  proof -
    have "round_double (of_int p) = of_int p" using p that by (intro round_double_int) simp_all
    then show ?thesis by simp
  qed
  have "length (int64_to_str val 12) = 7 \<longleftrightarrow>
     p < 999999500
     \<or> (1000000000 \<le> p \<and> p < 999999500000)
     \<or> (1000000000000 \<le> p \<and> p < 999999500000000)"
    unfolding int64_to_str_12 p_def [symmetric] Let_def
    using u scaled_k [OF p] scaled_M [OF p] scaled_G [OF p]
    by (auto simp: length_fmt_6_0f_eq_6)
  then show ?thesis by (simp add: e e')
qed

lemma rne_0 [simp]: "rne 0 = 0"
  using rne_of_int [of 0] by simp

lemma round_double_numeral:
  "numeral n < (2 :: int) ^ 53 \<Longrightarrow> round_double (numeral n) = numeral n"
  using round_double_of_int [of "numeral n"] by simp

lemma fmt_999999: "fmt_6_0f 999999 = ''999999''"
  by (simp add: fmt_6_0f_def pad_left_def dec_digits.simps)

lemma fmt_1000: "fmt_6_0f 1000 = ''  1000''"
  by (simp add: fmt_6_0f_def pad_left_def dec_digits.simps replicate_2 replicate_5)

lemma fmt_0: "fmt_6_0f 0 = ''     0''"
  by (simp add: fmt_6_0f_def pad_left_def dec_digits.simps replicate_2 replicate_5)

text \<open>
  Above \<open>2^53\<close> the conversion to double rounds: 9007200500000001 becomes
  9007200500000000, whose quotient by 10^9 is the tie 9007200.5, printed as 9007200.
\<close>

lemma round_double_above_2_53: "round_double 9007200500000001 = 9007200500000000"
proof -
  have e: "(9007200500000001 :: rat) / 2 powi (53 - 52) = of_int 4503600250000000 + 1 / 2"
    by simp
  have "round_double 9007200500000001
      = of_int (rne (9007200500000001 / 2 powi (53 - 52))) * 2 powi (53 - 52)"
    by (rule round_double_normal) simp_all
  also have "\<dots> = of_int 4503600250000000 * 2 powi (53 - 52)"
    unfolding e by (subst rne_half_even) simp_all
  also have "\<dots> = 9007200500000000" by simp
  finally show ?thesis .
qed

lemma int64_to_str_above_2_53: "int64_to_str 9007200500000001 12 = ''9007200G''"
proof -
  have h: "round_double (18014401 / 2) = 18014401 / 2"
    using round_double_exact [of 18014401 "- 1"] by simp
  have "rne (18014401 / 2) = 9007200" using rne_half_even [of 9007200] by simp
  then have "fmt_6_0f (18014401 / 2) = ''9007200''"
    by (simp add: fmt_6_0f_def pad_left_def dec_digits.simps)
  then show ?thesis
    by (simp add: int64_to_str_12 round_double_above_2_53 h)
qed

text \<open>
  Claim C8, as stated, fails at its first example: 999999 is rendered as the seven
  characters \<open>999999\<close> and a blank, with no leading blank.
\<close>


theorem int64_to_str_999999_counterexample:
  "int64_to_str 999999 12 \<noteq> '' 999999 ''"
  by (simp add: int64_to_str_12 round_double_numeral fmt_999999)

text \<open>
  Claim C8 (amended).  With the twelve-byte buffers of the dump routines, the formatter
  maps 999999 to \<open>999999\<close> followed by a blank, 1000000 to \<open>1000k\<close> and 1000000000 to
  \<open>1000M\<close>, each right-justified in six columns before the unit.  The unit is a blank
  below 10^6, \<open>k\<close> below 10^9, \<open>M\<close> below 10^12 and \<open>G\<close> otherwise.  The output is
  never shorter than seven characters, and it is exactly seven characters wide precisely
  when the scaled value rounds to fewer than seven digits.
\<close>


theorem int64_to_str_units:
  "int64_to_str 999999 12 = ''999999 ''
   \<and> int64_to_str 1000000 12 = ''  1000k''
   \<and> int64_to_str 1000000000 12 = ''  1000M''
   \<and> last (int64_to_str val 12) =
       (if sint val < 1000000 then CHR '' ''
        else if sint val < 1000000000 then CHR ''k''
        else if sint val < 1000000000000 then CHR ''M'' else CHR ''G'')
   \<and> 7 \<le> length (int64_to_str val 12)
   \<and> (length (int64_to_str val 12) = 7 \<longleftrightarrow>
        sint val < 999999500
        \<or> (1000000000 \<le> sint val \<and> sint val < 999999500000)
        \<or> (1000000000000 \<le> sint val \<and> sint val < 999999500000000))"
proof -
  have "int64_to_str 999999 12 = ''999999 ''"
    by (simp add: int64_to_str_12 round_double_numeral fmt_999999)
  moreover have "int64_to_str 1000000 12 = ''  1000k''"
    by (simp add: int64_to_str_12 round_double_numeral fmt_1000)
  moreover have "int64_to_str 1000000000 12 = ''  1000M''"
    by (simp add: int64_to_str_12 round_double_numeral fmt_1000)
  ultimately show ?thesis
    using int64_to_str_last [of val] int64_to_str_width [of val] int64_to_str_width_ge [of val]
    by blast
qed

subsection \<open>The wait computation\<close>





lemmas fl_ex =
  fl_dyadic [of 1 0, simplified] fl_dyadic [of 2 0, simplified] fl_dyadic [of 8 0, simplified]
  fl_dyadic [of 16 0, simplified] fl_dyadic [of 1008 0, simplified]
  fl_dyadic [of 1016 0, simplified]
  fl_dyadic [of "- 29" 2, simplified] fl_dyadic [of 61 2, simplified]
  fl_dyadic [of 61 5, simplified] fl_dyadic [of 3 2, simplified]
  fl_dyadic [of "- 63" 3, simplified] fl_dyadic [of 127 3, simplified]
  fl_dyadic [of 127 6, simplified] fl_dyadic [of 1 3, simplified]
  fl_dyadic [of 65 3, simplified]









text \<open>
  Rounding decides the branch.  With the start \<open>2^30\<close>, the interval \<open>1 + 3 * 2^-23\<close>
  and the time \<open>2^30 + 1 + 2^-21\<close>, the exact value of \<open>start + 1 * interval - now\<close>
  is \<open>-2^-23\<close>, but the sum \<open>start + interval\<close> is a tie that rounds to the even
  neighbour, which is the current time: the computed wait is 0, and the loop does not
  catch up.
\<close>

lemma tie1: "round_double (2 ^ 30 + (1 + 3 / 2 ^ 23)) = 2 ^ 30 + 1 + 1 / 2 ^ 21"
proof -
  have e: "(2 ^ 30 + (1 + 3 / 2 ^ 23) :: rat) / 2 powi (30 - 52) = of_int 4503599631564801 + 1 / 2"
    by (simp add: power_int_minus)
  have "round_double (2 ^ 30 + (1 + 3 / 2 ^ 23))
      = of_int (rne ((2 ^ 30 + (1 + 3 / 2 ^ 23)) / 2 powi (30 - 52))) * 2 powi (30 - 52)"
    by (rule round_double_normal) simp_all
  also have "\<dots> = of_int (4503599631564801 + 1) * 2 powi (30 - 52)"
    unfolding e by (subst rne_half_odd) simp_all
  also have "\<dots> = 2 ^ 30 + 1 + 1 / 2 ^ 21" by (simp add: power_int_minus)
  finally show ?thesis .
qed


lemma next_wait_tie_example:
  "(2 ^ 30 + of_nat (unat (1 :: 64 word)) * (1 + 3 / 2 ^ 23) - (2 ^ 30 + 1 + 1 / 2 ^ 21) :: rat) < 0
   \<and> is_double (2 ^ 30) \<and> is_double (2 ^ 30 + 1 + 1 / 2 ^ 21) \<and> is_double (1 + 3 / 2 ^ 23)
   \<and> wait_for (2 ^ 30) (2 ^ 30 + 1 + 1 / 2 ^ 21) (1 + 3 / 2 ^ 23) 1 = Some 0
   \<and> next_wait (2 ^ 30) (2 ^ 30 + 1 + 1 / 2 ^ 21) (1 + 3 / 2 ^ 23) 1 False = Some (2, 0)"
proof -
  have d: "fl (1 + 3 / 2 ^ 23) = Some (1 + 3 / 2 ^ 23)"
    using fl_dyadic [of 8388611 23] by simp
  have s: "fl (2 ^ 30 + (1 + 3 / 2 ^ 23)) = Some (2 ^ 30 + 1 + 1 / 2 ^ 21)"
    by (simp only: fl_def Let_def tie1) simp
  have z: "fl 0 = Some 0" by (simp add: fl_def)
  have i: "is_double (2 ^ 30)" "is_double (2 ^ 30 + 1 + 1 / 2 ^ 21)" "is_double (1 + 3 / 2 ^ 23)"
    using is_double_dyadic [of "2 ^ 30" 0] is_double_dyadic [of 2251799815782401 21]
      is_double_dyadic [of 8388611 23]
    by simp_all
  have w: "wait_for (2 ^ 30) (2 ^ 30 + 1 + 1 / 2 ^ 21) (1 + 3 / 2 ^ 23) 1 = Some 0"
    unfolding wait_for_def
    by (simp only: unat_1 of_nat_1 fl_ex bind.bind_lunit mult_1 d s diff_self z)
  then have "next_wait (2 ^ 30) (2 ^ 30 + 1 + 1 / 2 ^ 21) (1 + 3 / 2 ^ 23) 1 False = Some (2, 0)"
    by (simp add: next_wait_def)
  then show ?thesis using w i by simp
qed
subsection \<open>The allow-list\<close>

lemma of_char_int_range: "0 \<le> (of_char c :: int) \<and> (of_char c :: int) < 256"
proof -
  have "0 \<le> (of_char c :: int) mod 256 \<and> (of_char c :: int) mod 256 < 256"
    using pos_mod_sign [of 256 "of_char c"] pos_mod_bound [of 256 "of_char c"] by linarith
  then show ?thesis by (simp only: of_char_mod_256)
qed

lemma c_char_eq_iff: "c_char c1 = c_char c2 \<longleftrightarrow> c1 = c2"
proof
  assume e: "c_char c1 = c_char c2"
  have "(of_char c1 :: int) = of_char c2"
    using e of_char_int_range [of c1] of_char_int_range [of c2]
    by (simp add: c_char_def split: if_splits)
  then show "c1 = c2" by simp
qed simp

lemma procnamecmp_eq_0: "procnamecmp name tc = 0 \<longleftrightarrow> name_matches name tc"
  unfolding name_matches_def
proof (induction name tc rule: procnamecmp.induct)
  case (1 s2)
  show ?case by simp
next
  case (2 c1 s1 s2)
  show ?case
  proof (cases "c1 = CHR 0x00 \<or> c1 = CHR '' ''")
    case True
    then show ?thesis by auto
  next
    case False
    show ?thesis
    proof (cases s2)
      case Nil
      have "c_char c1 \<noteq> c_char (CHR 0x00)" using False by (simp only: c_char_eq_iff) simp
      then show ?thesis using False Nil by simp
    next
      case (Cons c2 s2')
      show ?thesis
      proof (cases "c1 = c2")
        case True
        then show ?thesis using False Cons "2.IH" [OF False Cons True] by simp
      next
        case ne: False
        then have "c_char c1 \<noteq> c_char c2" by (simp only: c_char_eq_iff) simp
        then show ?thesis using False Cons ne by simp
      qed
    qed
  qed
qed



lemma xpg_basename_keeps:
  "\<forall>cmd. cmdline = Some cmd \<longrightarrow> no_trailing_slash cmd \<Longrightarrow> snd (xpg_basename cmdline) = cmdline"
  by (auto simp: xpg_basename_def no_trailing_slash_def split: option.splits)

lemma pid_list_scan_char:
  assumes nt: "\<forall>cmd. cmdline = Some cmd \<longrightarrow> no_trailing_slash cmd" and pid: "pid \<noteq> 0"
    and wf: "\<forall>p \<in> set pids. pl_name p \<noteq> None \<longrightarrow> pl_pid p = 0"
  shows "pid_list_scan pids pid cmdline =
     ((\<exists>p \<in> set pids. pl_name p = None \<and> pl_pid p = pid)
      \<or> (\<exists>p \<in> set pids. \<exists>name. pl_name p = Some name \<and> display_matches name cmdline),
      cmdline)"
  using wf
proof (induction pids)
  case Nil
  show ?case by simp
next
  case (Cons p ps)
  have IH: "pid_list_scan ps pid cmdline =
     ((\<exists>p \<in> set ps. pl_name p = None \<and> pl_pid p = pid)
      \<or> (\<exists>p \<in> set ps. \<exists>name. pl_name p = Some name \<and> display_matches name cmdline),
      cmdline)"
    using Cons by simp
  show ?case
  proof (cases "pl_name p")
    case None
    then show ?thesis using IH by auto
  next
    case (Some name)
    then have p0: "pl_pid p = 0" using Cons.prems by simp
    then have ne: "pl_pid p \<noteq> pid" using pid by simp
    show ?thesis
    proof (cases "CHR ''/'' \<in> set name")
      case True
      then show ?thesis
        using Some ne IH
        by (cases cmdline) (auto simp: procnamecmp_eq_0 display_matches_def)
    next
      case False
      then show ?thesis
        using Some ne IH xpg_basename_keeps [OF nt]
        by (auto simp: procnamecmp_eq_0 display_matches_def)
    qed
  qed
qed

lemma parse_pid_list_example:
  "parse_pid_list [''sshd'', ''4242''] [] =
     Some [\<lparr>pl_name = None, pl_pid = 4242\<rparr>, \<lparr>pl_name = Some ''sshd'', pl_pid = 0\<rparr>]"
  by (simp add: isdigit_def strtol10_def)

lemma parse_pid_list_names:
  "parse_pid_list toks pids = Some res \<Longrightarrow>
   \<forall>p \<in> set pids. pl_name p \<noteq> None \<longrightarrow> pl_pid p = 0 \<Longrightarrow>
   \<forall>p \<in> set res. pl_name p \<noteq> None \<longrightarrow> pl_pid p = 0"
proof (induction toks arbitrary: pids)
  case Nil
  then show ?case by simp
next
  case (Cons tok toks)
  show ?case
  proof (cases "isdigit (case tok of [] \<Rightarrow> CHR 0x00 | c # _ \<Rightarrow> c)")
    case True
    then show ?thesis
      using Cons.prems Cons.IH [of pids]
        Cons.IH [of "\<lparr>pl_name = None, pl_pid = word_of_int (strtol10 tok)\<rparr> # pids"]
      by (auto simp: Let_def split: if_splits)
  next
    case False
    then show ?thesis
      using Cons.prems Cons.IH [of "\<lparr>pl_name = Some tok, pl_pid = 0\<rparr> # pids"]
      by auto
  qed
qed


lemma status_scan_f_pid:
  "status_scan sys buffers got new st = (ret, st') \<Longrightarrow>
   f_pid (heap st' new) = f_pid (heap st new)"
  by (induction sys buffers got new st rule: status_scan.induct)
     (auto simp: Let_def split: if_splits option.splits prod.splits)

lemma fault_cache_alloc_None:
  "fst (fault_cache_alloc calloc_result st) = None
     \<longleftrightarrow> fault_info_cache st = [] \<and> calloc_result = None"
  by (simp add: fault_cache_alloc_def split: list.splits option.splits)

lemma fault_get_by_proc_cases:
  assumes lk: "proc_cache_find_by_pid (proc_env sys) pid (caches st) = (r, c1)"
    and res: "fault_get_by_proc sys pids pid st fault_info = (ret, st', fault_info')"
  shows "(fault_info' = fault_info
          \<or> (\<exists>new. fault_info' = new # fault_info \<and> f_pid (heap st' new) = pid))
       \<and> (fault_info' \<noteq> fault_info \<longleftrightarrow>
            getpgid sys \<noteq> 0
            \<and> (\<exists>proc pr. r = Some proc \<and> proc_mem c1 proc = Some pr \<and> \<not> kernel_thread pr
                 \<and> (pids = [] \<or> fst (pid_list_scan pids pid (p_cmdline pr))))
            \<and> (fault_info_cache st \<noteq> [] \<or> calloc_fault sys \<noteq> None)
            \<and> (\<exists>buffer. Option.bind (proc_stat sys) (fgets 4095) = Some buffer
                  \<and> get_proc_self_stat_field (c_str buffer) 10 \<noteq> None))"
proof (cases "getpgid sys = 0")
  case True
  then show ?thesis using res by (simp add: fault_get_by_proc_def)
next
  case pg: False
  show ?thesis
  proof (cases r)
    case None
    then show ?thesis using res pg lk by (simp add: fault_get_by_proc_def)
  next
    case (Some proc)
    show ?thesis
    proof (cases "proc_mem c1 proc")
      case None
      then show ?thesis using res pg lk Some by (simp add: fault_get_by_proc_def)
    next
      case pm: (Some pr)
      show ?thesis
      proof (cases "kernel_thread pr")
        case True
        then show ?thesis using res pg lk Some pm by (simp add: fault_get_by_proc_def)
      next
        case kt: False
        obtain found cmdline' where sc:
          "(if pids = [] then (True, p_cmdline pr) else pid_list_scan pids pid (p_cmdline pr))
             = (found, cmdline')"
          by (cases "if pids = [] then (True, p_cmdline pr)
                     else pid_list_scan pids pid (p_cmdline pr)") auto
        have fo: "found \<longleftrightarrow> pids = [] \<or> fst (pid_list_scan pids pid (p_cmdline pr))"
          using sc by (auto split: if_splits)
        define st2 where "st2 = st\<lparr>caches := c1\<lparr>proc_mem :=
                                 (proc_mem c1)(proc \<mapsto> pr\<lparr>p_cmdline := cmdline'\<rparr>)\<rparr>\<rparr>"
        have fc: "fault_info_cache st2 = fault_info_cache st" by (simp add: st2_def)
        have body: "fault_get_by_proc sys pids pid st fault_info =
           (if \<not> found then (0, st2, fault_info)
            else
              case fault_cache_alloc (calloc_fault sys) st2 of
                (None, st3) \<Rightarrow> (- 1, st3, fault_info)
              | (Some new_fault_info, st3) \<Rightarrow>
                  (case Option.bind (proc_stat sys) (fgets 4095) of
                     None \<Rightarrow> (- 1, fault_cache_free new_fault_info st3, fault_info)
                   | Some buffer \<Rightarrow>
                       (case get_proc_self_stat_field (c_str buffer) 10 of
                          None \<Rightarrow> (- 1, fault_cache_free new_fault_info st3, fault_info)
                        | Some ptr \<Rightarrow>
                            (let r1 = (case sscanf_lu_u_lu sys ptr of
                                         None \<Rightarrow> heap st3 new_fault_info
                                       | Some (min_fault', maj_fault') \<Rightarrow>
                                           (heap st3 new_fault_info)
                                             \<lparr>min_fault := min_fault', maj_fault := maj_fault'\<rparr>);
                                 (proc', c3) =
                                   proc_cache_find_by_pid (proc_env sys) pid (caches st3);
                                 st4 = st3\<lparr>caches := c3,
                                          heap := (heap st3)(new_fault_info :=
                                            r1\<lparr>f_pid := pid, f_proc := proc',
                                               f_uid := 0, f_uname := None\<rparr>)\<rparr>
                             in case proc_status sys of
                                  None \<Rightarrow> (0, st4, new_fault_info # fault_info)
                                | Some lines \<Rightarrow>
                                    (let (ret, st5) = status_scan sys lines 0 new_fault_info st4
                                     in (ret, st5, new_fault_info # fault_info))))))"
          unfolding fault_get_by_proc_def st2_def
          by (simp only: pg if_False lk Some pm kt sc option.case prod.case Let_def)
        show ?thesis
        proof (cases found)
          case False
          then show ?thesis using res body fo Some pm by simp
        next
          case ft: True
          obtain a st3 where al: "fault_cache_alloc (calloc_fault sys) st2 = (a, st3)"
            by (cases "fault_cache_alloc (calloc_fault sys) st2") auto
          have an: "a = None \<longleftrightarrow> fault_info_cache st = [] \<and> calloc_fault sys = None"
            using fault_cache_alloc_None [of "calloc_fault sys" st2] al fc by simp
          show ?thesis
          proof (cases a)
            case None
            then show ?thesis using res body ft al an by simp
          next
            case na: (Some new)
            show ?thesis
            proof (cases "Option.bind (proc_stat sys) (fgets 4095)")
              case None
              then show ?thesis using res body ft al na by simp
            next
              case bf: (Some buffer)
              show ?thesis
              proof (cases "get_proc_self_stat_field (c_str buffer) 10")
                case None
                then show ?thesis using res body ft al na bf by simp
              next
                case (Some ptr)
                define r1 where "r1 = (case sscanf_lu_u_lu sys ptr of
                                         None \<Rightarrow> heap st3 new
                                       | Some (min_fault', maj_fault') \<Rightarrow>
                                           (heap st3 new)
                                             \<lparr>min_fault := min_fault', maj_fault := maj_fault'\<rparr>)"
                obtain proc' c3 where l2:
                  "proc_cache_find_by_pid (proc_env sys) pid (caches st3) = (proc', c3)"
                  by (cases "proc_cache_find_by_pid (proc_env sys) pid (caches st3)") auto
                define st4 where "st4 = st3\<lparr>caches := c3,
                                          heap := (heap st3)(new :=
                                            r1\<lparr>f_pid := pid, f_proc := proc',
                                               f_uid := 0, f_uname := None\<rparr>)\<rparr>"
                have p4: "f_pid (heap st4 new) = pid" by (simp add: st4_def)
                have e: "(ret, st', fault_info') =
                    (case proc_status sys of
                       None \<Rightarrow> (0, st4, new # fault_info)
                     | Some lines \<Rightarrow>
                         (let (ret, st5) = status_scan sys lines 0 new st4
                          in (ret, st5, new # fault_info)))"
                  using res body ft al na bf Some l2 unfolding r1_def st4_def
                  by (simp add: Let_def)
                have "fault_info' = new # fault_info \<and> f_pid (heap st' new) = pid"
                proof (cases "proc_status sys")
                  case None
                  then show ?thesis using e p4 by simp
                next
                  case (Some lines)
                  obtain ret5 st5 where s5: "status_scan sys lines 0 new st4 = (ret5, st5)"
                    by (cases "status_scan sys lines 0 new st4") auto
                  then have "st' = st5" "fault_info' = new # fault_info"
                    using e Some by simp_all
                  then show ?thesis using status_scan_f_pid [OF s5] p4 by simp
                qed
                then show ?thesis
                  using pg \<open>r = Some proc\<close> pm kt ft fo an na bf Some by auto
              qed
            qed
          qed
        qed
      qed
    qed
  qed
qed

lemma fault_get_by_proc_example:
  "map_option
     (\<lambda>allow. (snd (snd (fault_get_by_proc (ex_proc_sys ''bash'') allow 4242 empty_sampler [])),
                snd (snd (fault_get_by_proc (ex_proc_sys ''sshd: session'') allow 100
                            empty_sampler [])),
                snd (snd (fault_get_by_proc (ex_proc_sys ''bash'') allow 100 empty_sampler []))))
     (parse_pid_list [''sshd'', ''4242''] [])
   = Some ([7], [7], [])"
  by code_simp

text \<open>
  The cut that \<^verbatim>\<open>basename\<close> makes in place shows in the allow-list parsed from \<open>a/\<close>
  and \<open>zz\<close>: the entry \<open>zz\<close> comes first and has no separator, so the command line
  \<open>a/\<close> is cut to \<open>a\<close> before the entry \<open>a/\<close> is compared with it.  The process is
  not sampled although the listed name \<open>a/\<close> matches its command line, and the cache
  keeps the cut command line.
\<close>

lemma fault_get_by_proc_trailing_slash:
  "map_option
     (\<lambda>allow. (pid_list_scan allow 100 (Some ''a/''),
                snd (snd (fault_get_by_proc (ex_proc_sys ''a/'') allow 100 empty_sampler []))))
     (parse_pid_list [''a/'', ''zz''] [])
   = Some ((False, Some ''a''), [])
   \<and> display_matches ''a/'' (Some ''a/'')"
  by code_simp

text \<open>
  Claim C6, as stated, fails.  With the allow-list of the specification, the process
  4242 is listed by its pid, and a process named \<open>sshd: session\<close> matches the listed
  name; but when \<^verbatim>\<open>getpgid\<close> returns 0 for them (a kernel thread) they are not sampled,
  and neither is the listed process 4242 when its \<^verbatim>\<open>stat\<close> file cannot be opened.
\<close>

theorem fault_get_by_proc_guard_counterexample:
  "snd (snd (fault_get_by_proc ((ex_proc_sys ''bash'')\<lparr>getpgid := 0\<rparr>)
       [\<lparr>pl_name = None, pl_pid = 4242\<rparr>, \<lparr>pl_name = Some ''sshd'', pl_pid = 0\<rparr>]
       4242 empty_sampler [])) = []
   \<and> snd (snd (fault_get_by_proc ((ex_proc_sys ''sshd: session'')\<lparr>getpgid := 0\<rparr>)
       [\<lparr>pl_name = None, pl_pid = 4242\<rparr>, \<lparr>pl_name = Some ''sshd'', pl_pid = 0\<rparr>]
       100 empty_sampler [])) = []
   \<and> snd (snd (fault_get_by_proc ((ex_proc_sys ''bash'')\<lparr>proc_stat := None\<rparr>)
       [\<lparr>pl_name = None, pl_pid = 4242\<rparr>, \<lparr>pl_name = Some ''sshd'', pl_pid = 0\<rparr>]
       4242 empty_sampler [])) = []"
  by code_simp

text \<open>
  Claim C6 (amended).  With an allow-list configured, a call of \<^verbatim>\<open>fault_get_by_proc\<close>
  for a process (its pid is not 0, the pid that name entries carry) either leaves the
  sample list as it is or puts one record with the pid of the process in front of it.
  The process is sampled if and only if \<^verbatim>\<open>getpgid\<close> does not return 0, the process
  cache finds or makes its entry and this is not marked as a kernel thread, a fault
  record is available (from the free list or from \<^verbatim>\<open>calloc\<close>), the first line of its
  \<^verbatim>\<open>stat\<close> file can be read and has the tenth field, and its pid is that of a listed
  numeric entry or a listed name matches its display name: the listed name, read up to
  its first blank, is an initial segment of the display name, where the display name is
  the basename of the cached command line when the listed name has no path separator and
  the command line itself otherwise.  The cached command line is taken not to end in a
  separator.  Concretely, with the allow-list parsed from \<open>sshd\<close> and \<open>4242\<close>, the
  live process 4242 is sampled whatever its name, the live process 100 named
  \<open>sshd: session\<close> is sampled, and the live process 100 named \<open>bash\<close> is not.
\<close>

theorem fault_get_by_proc_filter:
  assumes "pids \<noteq> []" and "pid \<noteq> 0"
    and "\<forall>p \<in> set pids. pl_name p \<noteq> None \<longrightarrow> pl_pid p = 0"
    and "proc_cache_find_by_pid (proc_env sys) pid (caches st) = (r, c1)"
    and "\<forall>proc pr cmd. r = Some proc \<and> proc_mem c1 proc = Some pr \<and> p_cmdline pr = Some cmd
           \<longrightarrow> no_trailing_slash cmd"
    and "fault_get_by_proc sys pids pid st fault_info = (ret, st', fault_info')"
  shows "(fault_info' = fault_info
          \<or> (\<exists>new. fault_info' = new # fault_info \<and> f_pid (heap st' new) = pid))
       \<and> (fault_info' \<noteq> fault_info \<longleftrightarrow>
            getpgid sys \<noteq> 0
            \<and> (\<exists>proc pr. r = Some proc \<and> proc_mem c1 proc = Some pr \<and> \<not> kernel_thread pr
                 \<and> ((\<exists>p \<in> set pids. pl_name p = None \<and> pl_pid p = pid)
                      \<or> (\<exists>p \<in> set pids. \<exists>name. pl_name p = Some name
                            \<and> display_matches name (p_cmdline pr))))
            \<and> (fault_info_cache st \<noteq> [] \<or> calloc_fault sys \<noteq> None)
            \<and> (\<exists>buffer. Option.bind (proc_stat sys) (fgets 4095) = Some buffer
                  \<and> get_proc_self_stat_field (c_str buffer) 10 \<noteq> None))
       \<and> map_option
            (\<lambda>allow. (snd (snd (fault_get_by_proc (ex_proc_sys ''bash'') allow 4242
                                   empty_sampler [])),
                       snd (snd (fault_get_by_proc (ex_proc_sys ''sshd: session'') allow 100
                                   empty_sampler [])),
                       snd (snd (fault_get_by_proc (ex_proc_sys ''bash'') allow 100
                                   empty_sampler []))))
            (parse_pid_list [''sshd'', ''4242''] [])
          = Some ([7], [7], [])"
proof -
  note c = fault_get_by_proc_cases [OF assms(4) assms(6)]
  have sc: "fst (pid_list_scan pids pid (p_cmdline pr)) \<longleftrightarrow>
      (\<exists>p \<in> set pids. pl_name p = None \<and> pl_pid p = pid)
      \<or> (\<exists>p \<in> set pids. \<exists>name. pl_name p = Some name \<and> display_matches name (p_cmdline pr))"
    if "r = Some proc" and "proc_mem c1 proc = Some pr" for proc pr
  proof -
    have "\<forall>cmd. p_cmdline pr = Some cmd \<longrightarrow> no_trailing_slash cmd"
      using assms(5) that by blast
    from pid_list_scan_char [OF this assms(2) assms(3)] show ?thesis by simp
  qed
  have "(\<exists>proc pr. r = Some proc \<and> proc_mem c1 proc = Some pr \<and> \<not> kernel_thread pr
                 \<and> (pids = [] \<or> fst (pid_list_scan pids pid (p_cmdline pr))))
      \<longleftrightarrow> (\<exists>proc pr. r = Some proc \<and> proc_mem c1 proc = Some pr \<and> \<not> kernel_thread pr
                 \<and> ((\<exists>p \<in> set pids. pl_name p = None \<and> pl_pid p = pid)
                      \<or> (\<exists>p \<in> set pids. \<exists>name. pl_name p = Some name
                            \<and> display_matches name (p_cmdline pr))))"
    using sc assms(1) by blast
  then show ?thesis using c fault_get_by_proc_example by simp
qed

text \<open>
  The hypotheses of C6 hold of the example allow-list and of the two live processes
  with pid 100, whose cache entry is new and carries the command line as read; the
  equivalence decides both.
\<close>

theorem fault_get_by_proc_filter_witness:
  "snd (snd (fault_get_by_proc (ex_proc_sys ''sshd: session'')
       [\<lparr>pl_name = None, pl_pid = 4242\<rparr>, \<lparr>pl_name = Some ''sshd'', pl_pid = 0\<rparr>]
       100 empty_sampler [])) = [7]
   \<and> snd (snd (fault_get_by_proc (ex_proc_sys ''bash'')
       [\<lparr>pl_name = None, pl_pid = 4242\<rparr>, \<lparr>pl_name = Some ''sshd'', pl_pid = 0\<rparr>]
       100 empty_sampler [])) = []
   \<and> display_matches ''sshd'' (Some ''sshd: session'')"
proof -
  let ?allow = "[\<lparr>pl_name = None, pl_pid = 4242\<rparr>, \<lparr>pl_name = Some ''sshd'', pl_pid = 0 :: pid_t\<rparr>]"
  let ?X = "\<lambda>c. proc_cache_find_by_pid (proc_env (ex_proc_sys c)) 100 (caches empty_sampler)"
  let ?R = "\<lambda>c. fault_get_by_proc (ex_proc_sys c) ?allow 100 empty_sampler []"
  have a: "?allow \<noteq> []" by simp
  have b: "(100 :: pid_t) \<noteq> 0" by simp
  have w: "\<forall>p \<in> set ?allow. pl_name p \<noteq> None \<longrightarrow> pl_pid p = 0" by simp
  have l: "?X c = (fst (?X c), snd (?X c))" for c by simp
  have x: "fst (?X c) = Some 1
      \<and> proc_mem (snd (?X c)) 1 = Some \<lparr>p_cmdline = Some c, p_pid = 100, kernel_thread = False\<rparr>"
    for c
    by (simp add: proc_cache_find_by_pid_def proc_cache_add_at_hash_index_def ex_proc_sys_def
        init_env_def empty_sampler_def empty_caches_def Let_def)
  have n: "\<forall>proc pr cmd. fst (?X c) = Some proc \<and> proc_mem (snd (?X c)) proc = Some pr
      \<and> p_cmdline pr = Some cmd \<longrightarrow> no_trailing_slash cmd"
    if "no_trailing_slash c" for c
    using x [of c] that by auto
  have n1: "no_trailing_slash ''sshd: session''" and n2: "no_trailing_slash ''bash''"
    by (simp_all add: no_trailing_slash_def)
  have r: "?R c = (fst (?R c), fst (snd (?R c)), snd (snd (?R c)))" for c by simp
  have m: "display_matches ''sshd'' (Some ''sshd: session'')" by code_simp
  have e1: "snd (snd (?R ''sshd: session'')) = [7]" by code_simp
  have e2: "snd (snd (?R ''bash'')) = []" by code_simp
  show ?thesis
    using fault_get_by_proc_filter [OF a b w l n [OF n1] r]
      fault_get_by_proc_filter [OF a b w l n [OF n2] r]
    by - (intro conjI e1 e2 m)
qed
subsection \<open>The caches\<close>

lemma uname_cache_find_again:
  assumes "uname_cache_find env uid st = (Some a, st')"
  shows "uname_cache_find env' uid st' = (Some a, st')"
proof (cases "find (\<lambda>a. case uname_mem st a of None \<Rightarrow> False | Some u \<Rightarrow> u_uid u = uid)
                (uname_cache st (hash_uid uid))")
  case (Some b)
  then have "st' = st" and "b = a" using assms by (simp_all add: uname_cache_find_def)
  then show ?thesis using Some by (simp add: uname_cache_find_def)
next
  case None
  then show ?thesis using assms
    by (auto simp: uname_cache_find_def Let_def split: option.splits if_splits)
qed

lemma proc_cache_find_by_pid_again:
  assumes "proc_cache_find_by_pid env pid st = (Some a, st')"
  shows "proc_cache_find_by_pid env' pid st' = (Some a, st')"
proof (cases "find (\<lambda>a. case proc_mem st a of None \<Rightarrow> False | Some p \<Rightarrow> p_pid p = pid)
                (proc_cache_hash st (proc_cache_hash_pid pid))")
  case (Some b)
  then have "st' = st" and "b = a" using assms by (simp_all add: proc_cache_find_by_pid_def)
  then show ?thesis using Some by (simp add: proc_cache_find_by_pid_def)
next
  case None
  then show ?thesis using assms
    by (auto simp: proc_cache_find_by_pid_def proc_cache_add_at_hash_index_def Let_def
        split: option.splits if_splits)
qed

lemma uname_cache_find_keeps:
  assumes "uname_cache_find env uid st = (r, st')"
  shows "(\<forall>h. suffix (uname_cache st h) (uname_cache st' h))
       \<and> ((\<forall>a. calloc env = Some a \<longrightarrow> uname_mem st a = None) \<longrightarrow>
            uname_mem st \<subseteq>\<^sub>m uname_mem st')
       \<and> proc_cache_hash st' = proc_cache_hash st \<and> proc_mem st' = proc_mem st"
proof (cases "calloc env")
  case None
  then show ?thesis using assms
    by (auto simp: uname_cache_find_def Let_def map_le_def split: option.splits if_splits)
next
  case (Some a)
  then show ?thesis using assms
    by (auto simp: uname_cache_find_def Let_def map_le_def suffix_ConsI
        split: option.splits if_splits)
qed

lemma proc_cache_find_by_pid_keeps:
  assumes "proc_cache_find_by_pid env pid st = (r, st')"
  shows "(\<forall>h. suffix (proc_cache_hash st h) (proc_cache_hash st' h))
       \<and> ((\<forall>a. calloc env = Some a \<longrightarrow> proc_mem st a = None) \<longrightarrow>
            proc_mem st \<subseteq>\<^sub>m proc_mem st')
       \<and> uname_cache st' = uname_cache st \<and> uname_mem st' = uname_mem st"
proof (cases "calloc env")
  case None
  then show ?thesis using assms
    by (auto simp: proc_cache_find_by_pid_def proc_cache_add_at_hash_index_def Let_def
        map_le_def split: option.splits if_splits)
next
  case (Some a)
  then show ?thesis using assms
    by (auto simp: proc_cache_find_by_pid_def proc_cache_add_at_hash_index_def Let_def
        map_le_def suffix_ConsI split: option.splits if_splits)
qed

lemma uname_cache_find_total:
  "calloc env \<noteq> None \<Longrightarrow> strdup_ok env \<Longrightarrow> fst (uname_cache_find env uid st) \<noteq> None"
  by (auto simp: uname_cache_find_def Let_def split: option.splits)

lemma proc_cache_find_by_pid_total:
  "calloc env \<noteq> None \<Longrightarrow> pid_exists env \<Longrightarrow> fst (proc_cache_find_by_pid env pid st) \<noteq> None"
  by (auto simp: proc_cache_find_by_pid_def proc_cache_add_at_hash_index_def Let_def
      split: option.splits)

text \<open>
  Claim C7.  When memory is available and the process still exists, the first lookup of
  a uid in the user-name cache, and of a pid in the process cache, returns a record; a
  second lookup of the same key, whatever the system would answer then, returns the
  same address and leaves the whole state as it is, the count of system queries
  included, so it asks the system nothing.  A lookup never takes a record out of a
  chain: every chain before the lookup is a final segment of the chain after it, and
  with \<^verbatim>\<open>calloc\<close> returning unused memory every stored record keeps its fields.
\<close>

theorem cache_lookup_idempotent:
  assumes "calloc env \<noteq> None" and "strdup_ok env" and "pid_exists env"
  shows "(\<exists>u st1. uname_cache_find env uid st = (Some u, st1)
            \<and> uname_cache_find env' uid st1 = (Some u, st1)
            \<and> (\<forall>h. suffix (uname_cache st h) (uname_cache st1 h))
            \<and> ((\<forall>a. calloc env = Some a \<longrightarrow> uname_mem st a = None) \<longrightarrow>
                 uname_mem st \<subseteq>\<^sub>m uname_mem st1))
       \<and> (\<exists>p st2. proc_cache_find_by_pid env pid st = (Some p, st2)
            \<and> proc_cache_find_by_pid env' pid st2 = (Some p, st2)
            \<and> (\<forall>h. suffix (proc_cache_hash st h) (proc_cache_hash st2 h))
            \<and> ((\<forall>a. calloc env = Some a \<longrightarrow> proc_mem st a = None) \<longrightarrow>
                 proc_mem st \<subseteq>\<^sub>m proc_mem st2))"
proof -
  obtain r st1 where u: "uname_cache_find env uid st = (r, st1)"
    by (cases "uname_cache_find env uid st")
  then obtain a where r: "r = Some a"
    using uname_cache_find_total [OF assms(1) assms(2), of uid st] by auto
  obtain q st2 where p: "proc_cache_find_by_pid env pid st = (q, st2)"
    by (cases "proc_cache_find_by_pid env pid st")
  then obtain b where q: "q = Some b"
    using proc_cache_find_by_pid_total [OF assms(1) assms(3), of pid st] by auto
  show ?thesis
    using u r p q uname_cache_find_again [of env uid st a st1 env']
      proc_cache_find_by_pid_again [of env pid st b st2 env']
      uname_cache_find_keeps [OF u] proc_cache_find_by_pid_keeps [OF p]
    by simp
qed

text \<open>
  The hypotheses of C7 hold of the example environment; there the first lookup of uid 0
  in empty caches allocates the record at address 1 with one system query, and the
  second lookup returns that record with no further query.
\<close>

theorem cache_lookup_idempotent_witness:
  "calloc init_env \<noteq> None \<and> strdup_ok init_env \<and> pid_exists init_env
   \<and> fst (uname_cache_find init_env 0 empty_caches) = Some 1
   \<and> sys_queries (snd (uname_cache_find init_env 0 empty_caches)) = 1
   \<and> uname_cache_find dead_env 0 (snd (uname_cache_find init_env 0 empty_caches))
       = (Some 1, snd (uname_cache_find init_env 0 empty_caches))"
proof -
  have a: "calloc init_env \<noteq> None" and b: "strdup_ok init_env" and c: "pid_exists init_env"
    by (simp_all add: init_env_def)
  have first: "fst (uname_cache_find init_env 0 empty_caches) = Some 1"
    and q: "sys_queries (snd (uname_cache_find init_env 0 empty_caches)) = 1"
    by (simp_all add: uname_cache_find_def hash_uid_def init_env_def empty_caches_def)
  show ?thesis
    using cache_lookup_idempotent [OF a b c, of 0 empty_caches dead_env 0] a b c first q
    by auto
qed

subsection \<open>The delta engine\<close>

lemma fault_delta_no_match:
  "old_match h olds n = None \<Longrightarrow>
   fault_delta h n olds =
     h(n := (h n)\<lparr>d_min_fault := min_fault (h n), d_maj_fault := maj_fault (h n)\<rparr>)"
  unfolding old_match_def
  by (induction olds) (auto simp: Let_def)

lemma fault_delta_match:
  "old_match h olds n = Some old \<Longrightarrow>
   fault_delta h n olds =
     (h(n := (h n)\<lparr>d_min_fault := min_fault (h n) - min_fault (h old),
                   d_maj_fault := maj_fault (h n) - maj_fault (h old)\<rparr>))
       (old := (if old = n
                then (h n)\<lparr>d_min_fault := min_fault (h n) - min_fault (h old),
                           d_maj_fault := maj_fault (h n) - maj_fault (h old)\<rparr>
                else h old)\<lparr>alive := True\<rparr>)"
  unfolding old_match_def
  by (induction olds) (auto simp: Let_def fun_upd_def)

lemma old_match_Some_iff:
  "(\<exists>old. old_match h olds n = Some old) \<longleftrightarrow> f_pid (h n) \<in> (\<lambda>a. f_pid (h a)) ` set olds"
  unfolding old_match_def by (induction olds) auto

lemma old_match_props:
  "old_match h olds n = Some old \<Longrightarrow> old \<in> set olds \<and> f_pid (h old) = f_pid (h n)"
  unfolding old_match_def by (induction olds) (auto split: if_splits)

lemma sint_sub_no_wrap:
  fixes a b :: int64
  assumes "0 \<le> sint a" and "sint a \<le> sint b"
  shows "sint (b - a) = sint b - sint a"
proof -
  have "sint b < 2 ^ 63" using sint_lt [of b] by simp
  moreover have "- (2 ^ 63) \<le> sint a" using sint_ge [of a] by simp
  ultimately show ?thesis using assms
    by (simp add: sint_word_ariths signed_take_bit_int_eq_self)
qed

text \<open>
  Claim C1.  When the pid of the new record occurs in the previous list,
  \<^verbatim>\<open>fault_delta\<close> matches it with the first previous record of that pid (the only one
  when the pids of the previous list are pairwise different), sets the minor and major
  deltas of the new record to its counters minus those of the matched record, and marks
  the matched record alive.  When the old counters are not negative and the new ones are
  not below them, each delta is the difference of the counter values and is not negative.
\<close>

theorem fault_delta_continuing:
  assumes "f_pid (h n) \<in> (\<lambda>a. f_pid (h a)) ` set olds"
  shows "\<exists>old. old_match h olds n = Some old \<and> old \<in> set olds
           \<and> f_pid (h old) = f_pid (h n)
           \<and> (distinct (map (\<lambda>a. f_pid (h a)) olds) \<longrightarrow>
                (\<forall>a \<in> set olds. f_pid (h a) = f_pid (h n) \<longrightarrow> a = old))
           \<and> d_min_fault (fault_delta h n olds n) = min_fault (h n) - min_fault (h old)
           \<and> d_maj_fault (fault_delta h n olds n) = maj_fault (h n) - maj_fault (h old)
           \<and> alive (fault_delta h n olds old)
           \<and> (0 \<le> sint (min_fault (h old)) \<and> sint (min_fault (h old)) \<le> sint (min_fault (h n))
                \<longrightarrow> sint (d_min_fault (fault_delta h n olds n))
                      = sint (min_fault (h n)) - sint (min_fault (h old))
                    \<and> 0 \<le> sint (d_min_fault (fault_delta h n olds n)))
           \<and> (0 \<le> sint (maj_fault (h old)) \<and> sint (maj_fault (h old)) \<le> sint (maj_fault (h n))
                \<longrightarrow> sint (d_maj_fault (fault_delta h n olds n))
                      = sint (maj_fault (h n)) - sint (maj_fault (h old))
                    \<and> 0 \<le> sint (d_maj_fault (fault_delta h n olds n)))"
proof -
  obtain old where m: "old_match h olds n = Some old"
    using assms old_match_Some_iff [of h olds n] by blast
  have p: "old \<in> set olds" "f_pid (h old) = f_pid (h n)"
    using old_match_props [OF m] by simp_all
  have u: "a = old" if "distinct (map (\<lambda>a. f_pid (h a)) olds)" "a \<in> set olds"
    "f_pid (h a) = f_pid (h n)" for a
  proof -
    have "inj_on (\<lambda>a. f_pid (h a)) (set olds)" using that(1) by (simp add: distinct_map)
    moreover have "f_pid (h a) = f_pid (h old)" using that(3) p(2) by simp
    ultimately show ?thesis using that(2) p(1) by (rule inj_onD)
  qed
  have dmin: "d_min_fault (fault_delta h n olds n) = min_fault (h n) - min_fault (h old)"
    and dmaj: "d_maj_fault (fault_delta h n olds n) = maj_fault (h n) - maj_fault (h old)"
    and al: "alive (fault_delta h n olds old)"
    by (simp_all add: fault_delta_match [OF m])
  show ?thesis
    using m p u dmin dmaj al
      sint_sub_no_wrap [of "min_fault (h old)" "min_fault (h n)"]
      sint_sub_no_wrap [of "maj_fault (h old)" "maj_fault (h n)"]
    by auto
qed

text \<open>
  The hypothesis of C1 holds in the example store: at the second tick pid 10 has major 9
  and minor 20 after major 5 and minor 20, which gives the deltas 4 and 0.
\<close>

theorem fault_delta_continuing_witness:
  "f_pid (ex_store 3) \<in> (\<lambda>a. f_pid (ex_store a)) ` set [1]
   \<and> d_maj_fault (fault_delta ex_store 3 [1] 3) = 4
   \<and> d_min_fault (fault_delta ex_store 3 [1] 3) = 0
   \<and> alive (fault_delta ex_store 3 [1] 1)"
proof -
  have a: "f_pid (ex_store 3) \<in> (\<lambda>a. f_pid (ex_store a)) ` set [1]"
    by (simp add: ex_store_def zero_fault_info_def)
  have m: "old_match ex_store [1] 3 = Some 1"
    by (simp add: old_match_def ex_store_def zero_fault_info_def)
  have v: "maj_fault (ex_store 3) - maj_fault (ex_store 1) = 4"
    "min_fault (ex_store 3) - min_fault (ex_store 1) = 0"
    by (simp_all add: ex_store_def zero_fault_info_def)
  show ?thesis using fault_delta_continuing [OF a] a m v by auto
qed

text \<open>
  Claim C3.  When the pid of the new record does not occur in the previous list, in
  particular when that list is empty, \<^verbatim>\<open>fault_delta\<close> sets the minor and major deltas
  of the record to its cumulative minor and major counters, and changes nothing else.
\<close>

theorem fault_delta_new_process:
  assumes "f_pid (h n) \<notin> (\<lambda>a. f_pid (h a)) ` set olds"
  shows "d_min_fault (fault_delta h n olds n) = min_fault (h n)
       \<and> d_maj_fault (fault_delta h n olds n) = maj_fault (h n)
       \<and> fault_delta h n olds
           = h(n := (h n)\<lparr>d_min_fault := min_fault (h n), d_maj_fault := maj_fault (h n)\<rparr>)
       \<and> fault_delta h n []
           = h(n := (h n)\<lparr>d_min_fault := min_fault (h n), d_maj_fault := maj_fault (h n)\<rparr>)"
proof -
  have "old_match h olds n = None"
    using assms old_match_Some_iff [of h olds n] by (cases "old_match h olds n") auto
  then show ?thesis by (simp add: fault_delta_no_match)
qed

text \<open>
  The hypothesis of C3 holds in the example store: pid 11 is new at the second tick, with
  major 0 and minor 3, and these are its deltas.
\<close>

theorem fault_delta_new_process_witness:
  "f_pid (ex_store 2) \<notin> (\<lambda>a. f_pid (ex_store a)) ` set [1]
   \<and> d_maj_fault (fault_delta ex_store 2 [1] 2) = 0
   \<and> d_min_fault (fault_delta ex_store 2 [1] 2) = 3"
proof -
  have a: "f_pid (ex_store 2) \<notin> (\<lambda>a. f_pid (ex_store a)) ` set [1]"
    by (simp add: ex_store_def zero_fault_info_def)
  have v: "maj_fault (ex_store 2) = 0" "min_fault (ex_store 2) = 3"
    by (simp_all add: ex_store_def zero_fault_info_def)
  show ?thesis using fault_delta_new_process [OF a] a v by simp
qed


subsection \<open>The loops of the source are instances of the generic loops\<close>

lemma json_scan_gscan: "json_scan sb olds news st = gscan S_next False True sb olds news st"
  by (induction news arbitrary: st) (auto simp: Let_def split: option.splits)

lemma dump_scan_gscan: "dump_scan sb olds news st = gscan S_next False False sb olds news st"
  by (induction news arbitrary: st) (auto simp: Let_def split: option.splits)

lemma diff_scan_gscan: "diff_scan sb olds news st = gscan D_next True False sb olds news st"
  by (induction news arbitrary: st) (auto simp: Let_def split: option.splits)

lemma dump_died_gdied: "dump_died sb olds st = gdied False sb olds st"
  by (induction olds arbitrary: st) (auto simp: Let_def split: option.splits)

lemma diff_died_gdied: "diff_died sb olds st = gdied True sb olds st"
  by (induction olds arbitrary: st) (auto simp: Let_def split: option.splits)
subsection \<open>The insertion loop\<close>

lemma get_next_set_next [simp]: "get_next X (set_next X v r) = v"
  by (cases X) simp_all

lemma set_next_get_next [simp]: "set_next X (get_next X r) r = r"
  by (cases X) simp_all

lemma set_next_fields [simp]:
  "f_pid (set_next X v r) = f_pid r" "min_fault (set_next X v r) = min_fault r"
  "maj_fault (set_next X v r) = maj_fault r" "vm_swap (set_next X v r) = vm_swap r"
  "d_min_fault (set_next X v r) = d_min_fault r" "d_maj_fault (set_next X v r) = d_maj_fault r"
  "alive (set_next X v r) = alive r"
  by (cases X; simp)+

lemma set_next_other [simp]:
  "s_next (set_next D_next v r) = s_next r" "d_next (set_next S_next v r) = d_next r"
  by simp_all

lemma compare_set_next [simp]:
  "compare sb (set_next X v r) r' = compare sb r r'"
  "compare sb r (set_next X v r') = compare sb r r'"
  by (simp_all add: compare_def)

lemma chain_list_cong:
  "(\<And>a. a \<in> set xs \<Longrightarrow> get_next X (h' a) = get_next X (h a)) \<Longrightarrow>
   chain_list X h' p xs = chain_list X h p xs"
  by (induction xs arbitrary: p) auto

lemma chain_list_upd:
  "a \<notin> set xs \<Longrightarrow> chain_list X (h(a := r)) p xs = chain_list X h p xs"
  by (rule chain_list_cong) auto

lemma chain_list_unique:
  "chain_list X h p xs \<Longrightarrow> chain_list X h p ys \<Longrightarrow> xs = ys"
proof (induction xs arbitrary: p ys)
  case Nil
  then show ?case by (cases ys) auto
next
  case (Cons a as)
  then show ?case by (cases ys) auto
qed

lemma ins_cong:
  "(\<And>a. a \<in> set xs \<Longrightarrow> compare sb (h' a) (h' fi) = compare sb (h a) (h fi)) \<Longrightarrow>
   ins sb h' fi xs = ins sb h fi xs"
  by (induction xs) auto

lemma set_ins [simp]: "set (ins sb h fi xs) = insert fi (set xs)"
  by (induction xs) auto

lemma mset_ins [simp]: "mset (ins sb h fi xs) = add_mset fi (mset xs)"
  by (induction xs) auto

lemma distinct_ins [simp]: "distinct (ins sb h fi xs) \<longleftrightarrow> fi \<notin> set xs \<and> distinct xs"
  by (induction xs) auto

lemma insert_walk_chain:
  assumes "chain_list X h (load X h head l) xs"
    and "distinct xs" and "fi \<notin> set xs" and "get_next X (h fi) = None"
    and "\<And>q. l = Field q \<Longrightarrow> q \<noteq> fi \<and> q \<notin> set xs"
  shows "\<exists>h' head'. insert_walk X sb fi l h head = Some (h', head')
           \<and> chain_list X h' (load X h' head' l) (ins sb h fi xs)
           \<and> (\<forall>a. \<exists>v. h' a = set_next X v (h a))
           \<and> (\<forall>a. a \<noteq> fi \<longrightarrow> a \<notin> set xs \<longrightarrow> l \<noteq> Field a \<longrightarrow> h' a = h a)
           \<and> (l \<noteq> Var \<longrightarrow> head' = head)"
  using assms
proof (induction xs arbitrary: l)
  case Nil
  then have ld: "load X h head l = None" by simp
  have fr: "\<exists>v. h a = set_next X v (h a)" for a
    by (rule exI [of _ "get_next X (h a)"]) simp
  show ?case
  proof (cases l)
    case Var
    then show ?thesis using ld Nil.prems(4) fr
      by (subst insert_walk.simps) simp
  next
    case (Field q)
    then have "q \<noteq> fi" using Nil.prems(5) by simp
    then show ?thesis using ld Field Nil.prems(4) fr
      by (subst insert_walk.simps) (auto simp: fun_upd_apply)
  qed
next
  case (Cons x xs)
  then have ld: "load X h head l = Some x"
    and tl: "chain_list X h (get_next X (h x)) xs" by simp_all
  have xfi: "x \<noteq> fi" and xn: "x \<notin> set xs" and fin: "fi \<notin> set xs" and dx: "distinct xs"
    using Cons.prems by auto
  have fr: "\<exists>v. h a = set_next X v (h a)" for a
    by (rule exI [of _ "get_next X (h a)"]) simp
  show ?case
  proof (cases "compare sb (h x) (h fi)")
    case True
    let ?h1 = "h(fi := set_next X (Some x) (h fi))"
    have c1: "chain_list X ?h1 (Some x) (x # xs)"
      using tl xfi fin by (simp add: chain_list_upd)
    show ?thesis
    proof (cases l)
      case Var
      have "insert_walk X sb fi l h head = Some (?h1, Some fi)"
        using ld True Var by (subst insert_walk.simps) simp
      moreover have "chain_list X ?h1 (Some fi) (fi # x # xs)" using c1 by simp
      moreover have "\<forall>a. \<exists>v. ?h1 a = set_next X v (h a)" using fr by auto
      ultimately show ?thesis using True Var by auto
    next
      case (Field q)
      then have q: "q \<noteq> fi" "q \<noteq> x" "q \<notin> set xs" using Cons.prems(5) by auto
      let ?h2 = "?h1(q := set_next X (Some fi) (?h1 q))"
      have "insert_walk X sb fi l h head = Some (?h2, head)"
        using ld True Field by (subst insert_walk.simps) simp
      moreover have "chain_list X ?h2 (load X ?h2 head l) (fi # x # xs)"
        using c1 q xfi Field by (simp add: chain_list_upd)
      moreover have "\<forall>a. \<exists>v. ?h2 a = set_next X v (h a)" using fr q by auto
      moreover have "\<forall>a. a \<noteq> fi \<longrightarrow> a \<notin> set (x # xs) \<longrightarrow> l \<noteq> Field a \<longrightarrow> ?h2 a = h a"
        using Field by auto
      ultimately show ?thesis using True by auto
    qed
  next
    case False
    have cell: "\<And>q. Field x = Field q \<Longrightarrow> q \<noteq> fi \<and> q \<notin> set xs"
      using xfi xn by simp
    have "chain_list X h (load X h head (Field x)) xs" using tl by simp
    from Cons.IH [OF this dx fin Cons.prems(4) cell]
    obtain h' head' where
      w: "insert_walk X sb fi (Field x) h head = Some (h', head')"
      and c: "chain_list X h' (get_next X (h' x)) (ins sb h fi xs)"
      and f1: "\<forall>a. \<exists>v. h' a = set_next X v (h a)"
      and f2: "\<forall>a. a \<noteq> fi \<longrightarrow> a \<notin> set xs \<longrightarrow> a \<noteq> x \<longrightarrow> h' a = h a"
      and hd: "head' = head"
      by auto
    have w': "insert_walk X sb fi l h head = Some (h', head')"
      using ld False w by (subst insert_walk.simps) simp
    have "load X h' head' l = Some x"
    proof (cases l)
      case Var
      then show ?thesis using ld hd by simp
    next
      case (Field q)
      then have "q \<noteq> fi" "q \<noteq> x" "q \<notin> set xs" using Cons.prems(5) by auto
      then have "h' q = h q" using f2 by simp
      then show ?thesis using ld Field by simp
    qed
    then have "chain_list X h' (load X h' head' l) (ins sb h fi (x # xs))"
      using c False by simp
    moreover have "\<forall>a. a \<noteq> fi \<longrightarrow> a \<notin> set (x # xs) \<longrightarrow> l \<noteq> Field a \<longrightarrow> h' a = h a"
      using f2 by simp
    ultimately show ?thesis using w' f1 hd by auto
  qed
qed

lemma insert_walk_top:
  assumes "chain_list X h head xs" and "distinct xs" and "fi \<notin> set xs"
    and "get_next X (h fi) = None"
  obtains h' head' where "insert_walk X sb fi Var h head = Some (h', head')"
    and "chain_list X h' head' (ins sb h fi xs)"
    and "\<And>a. \<exists>v. h' a = set_next X v (h a)"
    and "\<And>a. a \<noteq> fi \<Longrightarrow> a \<notin> set xs \<Longrightarrow> h' a = h a"
proof -
  have "chain_list X h (load X h head Var) xs" using assms(1) by simp
  from insert_walk_chain [where l = Var and sb = sb, OF this assms(2) assms(3) assms(4)]
  show ?thesis using that by auto
qed

lemma insert_walk_links_only:
  assumes "insert_walk X sb fi l h head = Some r"
  shows "\<forall>a. \<exists>v. fst r a = set_next X v (h a)"
proof (rule insert_walk.raw_induct
    [where P = "\<lambda>X sb fi l h head r. \<forall>a. \<exists>v. fst r a = set_next X v (h a)", OF _ assms])
  fix iw :: "linkage \<Rightarrow> int \<Rightarrow> addr \<Rightarrow> cell \<Rightarrow> store \<Rightarrow> addr option \<Rightarrow> (store \<times> addr option) option"
  fix X sb fi l h head r
  assume IH: "\<And>X sb fi l h head y. iw X sb fi l h head = Some y \<Longrightarrow>
      \<forall>a. \<exists>v. fst y a = set_next X v (h a)"
  assume eq: "(case load X h head l of
        None \<Rightarrow> Some (assign X l (Some fi) h head)
      | Some x \<Rightarrow>
          if compare sb (h x) (h fi)
          then Some (assign X l (Some fi) (h(fi := set_next X (Some x) (h fi))) head)
          else iw X sb fi (Field x) h head) = Some r"
  have fr: "\<exists>v. h a = set_next X v (h a)" for a
    by (rule exI [of _ "get_next X (h a)"]) simp
  have fr2: "\<exists>v. set_next X w (h a) = set_next X v (h a)" for a w
    by (rule exI [of _ w]) simp
  have s2: "set_next X w (set_next X w' rr) = set_next X w rr" for w w' rr
    by (cases X) simp_all
  show "\<forall>a. \<exists>v. fst r a = set_next X v (h a)"
  proof (cases "load X h head l")
    case None
    then have "r = assign X l (Some fi) h head" using eq by simp
    then show ?thesis using fr fr2 by (cases l) (auto simp: fun_upd_apply)
  next
    case (Some x)
    show ?thesis
    proof (cases "compare sb (h x) (h fi)")
      case True
      then have r: "r = assign X l (Some fi) (h(fi := set_next X (Some x) (h fi))) head"
        using eq Some by simp
      show ?thesis
      proof (cases l)
        case Var
        then show ?thesis using r fr fr2 by (auto simp: fun_upd_apply)
      next
        case (Field q)
        show ?thesis
        proof
          fix a
          show "\<exists>v. fst r a = set_next X v (h a)"
            using r Field fr [of a] fr2 [of _ a] by (auto simp: fun_upd_apply s2)
        qed
      qed
    next
      case False
      then have "iw X sb fi (Field x) h head = Some r" using eq Some by simp
      then show ?thesis by (rule IH)
    qed
  qed
qed

lemma insert_walk_fields:
  assumes "insert_walk X sb fi l h head = Some (h', head')"
  shows "counters (h' a) = counters (h a)" and "sort_data (h' a) = sort_data (h a)"
    and "alive (h' a) = alive (h a)"
    and "d_min_fault (h' a) = d_min_fault (h a)" and "d_maj_fault (h' a) = d_maj_fault (h a)"
    and "min_fault (h' a) = min_fault (h a)" and "maj_fault (h' a) = maj_fault (h a)"
    and "vm_swap (h' a) = vm_swap (h a)" and "f_pid (h' a) = f_pid (h a)"
    and "Y \<noteq> X \<Longrightarrow> get_next Y (h' a) = get_next Y (h a)"
proof -
  obtain v where v: "h' a = set_next X v (h a)"
    using insert_walk_links_only [OF assms] by auto
  show "counters (h' a) = counters (h a)" and "sort_data (h' a) = sort_data (h a)"
    and "alive (h' a) = alive (h a)"
    and "d_min_fault (h' a) = d_min_fault (h a)" and "d_maj_fault (h' a) = d_maj_fault (h a)"
    and "min_fault (h' a) = min_fault (h a)" and "maj_fault (h' a) = maj_fault (h a)"
    and "vm_swap (h' a) = vm_swap (h a)" and "f_pid (h' a) = f_pid (h a)"
    by (simp_all add: v counters_def sort_data_def)
  show "get_next Y (h' a) = get_next Y (h a)" if "Y \<noteq> X"
    using that v by (cases X; cases Y) simp_all
qed

lemma compare_sort_data:
  "sort_data r1 = sort_data r1' \<Longrightarrow> sort_data r2 = sort_data r2' \<Longrightarrow>
   compare sb r1 r2 = compare sb r1' r2'"
  by (simp add: sort_data_def compare_def)

lemma old_match_cong:
  "(\<And>a. f_pid (h' a) = f_pid (h a)) \<Longrightarrow> old_match h' olds n = old_match h olds n"
  by (simp add: old_match_def)

lemma delta_of_cong:
  "(\<And>a. counters (h' a) = counters (h a)) \<Longrightarrow> delta_of h' olds n = delta_of h olds n"
proof -
  assume c: "\<And>a. counters (h' a) = counters (h a)"
  have p: "f_pid (h' a) = f_pid (h a)" and m: "min_fault (h' a) = min_fault (h a)"
    and j: "maj_fault (h' a) = maj_fault (h a)" for a
    using c [of a] by (simp_all add: counters_def)
  have "old_match h' olds n = old_match h olds n" using p by (rule old_match_cong)
  then show ?thesis by (simp add: delta_of_def m j split: option.splits)
qed

lemma fault_delta_fields:
  "counters (fault_delta h n olds a) = counters (h a)"
  "s_next (fault_delta h n olds a) = s_next (h a)"
  "d_next (fault_delta h n olds a) = d_next (h a)"
  "get_next Y (fault_delta h n olds a) = get_next Y (h a)"
  "a \<noteq> n \<Longrightarrow> sort_data (fault_delta h n olds a) = sort_data (h a)"
  "alive (fault_delta h n olds a) \<longleftrightarrow> alive (h a) \<or> old_match h olds n = Some a"
  "(d_min_fault (fault_delta h n olds n), d_maj_fault (fault_delta h n olds n)) = delta_of h olds n"
  by (cases "old_match h olds n";
      cases Y; simp add: fault_delta_no_match fault_delta_match counters_def sort_data_def
      delta_of_def)+

subsection \<open>The first loop\<close>

lemma fault_delta_plain_fields [simp]:
  "f_pid (fault_delta h n olds a) = f_pid (h a)"
  "min_fault (fault_delta h n olds a) = min_fault (h a)"
  "maj_fault (fault_delta h n olds a) = maj_fault (h a)"
  "vm_swap (fault_delta h n olds a) = vm_swap (h a)"
  using fault_delta_fields(1) [of h n olds a] by (simp_all add: counters_def)

lemma kept_iff:
  "kept skip h olds fi \<longleftrightarrow>
     \<not> (skip \<and> d_min_fault (fault_delta h fi olds fi) + d_maj_fault (fault_delta h fi olds fi) = 0)"
  using fault_delta_fields(7) [of h fi olds] by (auto simp: kept_def dest: sym)

lemma gscan_step:
  assumes "gscan X skip sw sb olds (fi # rest) st = Some st'"
  obtains (skipped) "\<not> kept skip (store_of st) olds fi"
      "gscan X skip sw sb olds rest (st\<lparr>store_of := fault_delta (store_of st) fi olds\<rparr>)
         = Some st'"
    | (linked) h2 head st2 where "kept skip (store_of st) olds fi"
      "insert_walk X sb fi Var (fault_delta (store_of st) fi olds) (sorted_head st)
         = Some (h2, head)"
      "store_of st2 = h2" "sorted_head st2 = head"
      "t_min_fault st2 = t_min_fault st + min_fault (h2 fi)"
      "t_maj_fault st2 = t_maj_fault st + maj_fault (h2 fi)"
      "t_d_min_fault st2 = t_d_min_fault st + d_min_fault (h2 fi)"
      "t_d_maj_fault st2 = t_d_maj_fault st + d_maj_fault (h2 fi)"
      "t_vm_swap st2 = (if sw then t_vm_swap st + vm_swap (h2 fi) else t_vm_swap st)"
      "gscan X skip sw sb olds rest st2 = Some st'"
proof (cases "kept skip (store_of st) olds fi")
  case False
  then have "skip \<and> d_min_fault (fault_delta (store_of st) fi olds fi)
      + d_maj_fault (fault_delta (store_of st) fi olds fi) = 0"
    by (simp add: kept_iff)
  then have "gscan X skip sw sb olds (fi # rest) st
      = gscan X skip sw sb olds rest (st\<lparr>store_of := fault_delta (store_of st) fi olds\<rparr>)"
    by (simp only: gscan.simps Let_def if_P)
  then show ?thesis using assms skipped False by simp
next
  case True
  let ?h1 = "fault_delta (store_of st) fi olds"
  have ns: "\<not> (skip \<and> d_min_fault (?h1 fi) + d_maj_fault (?h1 fi) = 0)"
    using True by (simp add: kept_iff)
  have eq: "gscan X skip sw sb olds (fi # rest) st
      = (case insert_walk X sb fi Var ?h1 (sorted_head st) of
          None \<Rightarrow> None
        | Some (h2, head) \<Rightarrow>
            gscan X skip sw sb olds rest
              (st\<lparr>store_of := h2, sorted_head := head,
                  t_min_fault := t_min_fault st + min_fault (h2 fi),
                  t_maj_fault := t_maj_fault st + maj_fault (h2 fi),
                  t_d_min_fault := t_d_min_fault st + d_min_fault (h2 fi),
                  t_d_maj_fault := t_d_maj_fault st + d_maj_fault (h2 fi),
                  t_vm_swap := (if sw then t_vm_swap st + vm_swap (h2 fi)
                                else t_vm_swap st)\<rparr>))"
    by (simp only: gscan.simps Let_def if_not_P [OF ns])
  obtain h2 head where
    iw: "insert_walk X sb fi Var ?h1 (sorted_head st) = Some (h2, head)"
    using assms eq by (cases "insert_walk X sb fi Var ?h1 (sorted_head st)") auto
  let ?st2 = "st\<lparr>store_of := h2, sorted_head := head,
                  t_min_fault := t_min_fault st + min_fault (h2 fi),
                  t_maj_fault := t_maj_fault st + maj_fault (h2 fi),
                  t_d_min_fault := t_d_min_fault st + d_min_fault (h2 fi),
                  t_d_maj_fault := t_d_maj_fault st + d_maj_fault (h2 fi),
                  t_vm_swap := (if sw then t_vm_swap st + vm_swap (h2 fi)
                                else t_vm_swap st)\<rparr>"
  have "gscan X skip sw sb olds rest ?st2 = Some st'"
    using assms eq iw by simp
  then show ?thesis using linked [of h2 head ?st2] True iw by simp
qed

lemma gscan_frame_aux:
  "gscan X skip sw sb olds todo st = Some st' \<Longrightarrow>
   counters (store_of st' a) = counters (store_of st a)
   \<and> (Y \<noteq> X \<longrightarrow> get_next Y (store_of st' a) = get_next Y (store_of st a))
   \<and> (a \<notin> set todo \<longrightarrow> sort_data (store_of st' a) = sort_data (store_of st a))
   \<and> (alive (store_of st' a) \<longleftrightarrow>
        alive (store_of st a) \<or> (\<exists>n \<in> set todo. old_match (store_of st) olds n = Some a))"
proof (induction todo arbitrary: st)
  case Nil
  then show ?case by simp
next
  case (Cons fi rest)
  let ?H = "store_of st"
  let ?h1 = "fault_delta ?H fi olds"
  have om1: "old_match ?h1 olds n = old_match ?H olds n" for n
    by (rule old_match_cong) simp
  from Cons.prems show ?case
  proof (cases rule: gscan_step)
    case skipped
    from Cons.IH [OF skipped(2)] show ?thesis
      by (auto simp: fault_delta_fields om1)
  next
    case (linked h2 head st2)
    note iw = linked(2)
    have om2: "old_match h2 olds n = old_match ?H olds n" for n
    proof -
      have "old_match h2 olds n = old_match ?h1 olds n"
        by (rule old_match_cong) (rule insert_walk_fields(9) [OF iw])
      then show ?thesis by (simp add: om1)
    qed
    from Cons.IH [OF linked(10)] show ?thesis
      by (auto simp: linked(3) om2 insert_walk_fields [OF iw] fault_delta_fields)
  qed
qed

lemma gscan_frame:
  assumes "gscan X skip sw sb olds todo st = Some st'"
  shows "counters (store_of st' a) = counters (store_of st a)"
    and "Y \<noteq> X \<Longrightarrow> get_next Y (store_of st' a) = get_next Y (store_of st a)"
    and "a \<notin> set todo \<Longrightarrow> sort_data (store_of st' a) = sort_data (store_of st a)"
    and "alive (store_of st' a) \<longleftrightarrow>
           alive (store_of st a) \<or> (\<exists>n \<in> set todo. old_match (store_of st) olds n = Some a)"
  using gscan_frame_aux [OF assms, of a Y] by blast+

lemma counters_fields:
  assumes "counters r' = counters r"
  shows "f_pid r' = f_pid r" "min_fault r' = min_fault r" "maj_fault r' = maj_fault r"
    "vm_swap r' = vm_swap r"
  using assms by (simp_all add: counters_def)

lemma sort_data_fields:
  assumes "sort_data r' = sort_data r"
  shows "d_min_fault r' = d_min_fault r" "d_maj_fault r' = d_maj_fault r"
  using assms by (simp_all add: sort_data_def)

lemma gscan_d_self:
  "gscan X skip sw sb olds todo st = Some st' \<Longrightarrow> distinct todo \<Longrightarrow> a \<in> set todo \<Longrightarrow>
   (d_min_fault (store_of st' a), d_maj_fault (store_of st' a)) = delta_of (store_of st) olds a"
proof (induction todo arbitrary: st)
  case Nil
  then show ?case by simp
next
  case (Cons fi rest)
  let ?H = "store_of st"
  let ?h1 = "fault_delta ?H fi olds"
  have dc1: "delta_of ?h1 olds n = delta_of ?H olds n" for n
    by (rule delta_of_cong) (rule fault_delta_fields(1))
  from Cons.prems(1) show ?case
  proof (cases rule: gscan_step)
    case skipped
    note rec = skipped(2)
    show ?thesis
    proof (cases "a = fi")
      case True
      then have "a \<notin> set rest" using Cons.prems by simp
      from gscan_frame(3) [OF rec this] show ?thesis
        using True fault_delta_fields(7) [of ?H fi olds]
        by (simp add: sort_data_def)
    next
      case False
      then have "a \<in> set rest" "distinct rest" using Cons.prems by simp_all
      from Cons.IH [OF rec this(2) this(1)] show ?thesis by (simp add: dc1)
    qed
  next
    case (linked h2 head st2)
    note iw = linked(2) and s2 = linked(3) and rec = linked(10)
    have dc2: "delta_of h2 olds n = delta_of ?H olds n" for n
    proof -
      have "delta_of h2 olds n = delta_of ?h1 olds n"
        by (rule delta_of_cong) (rule insert_walk_fields(1) [OF iw])
      then show ?thesis by (simp add: dc1)
    qed
    show ?thesis
    proof (cases "a = fi")
      case True
      then have "a \<notin> set rest" using Cons.prems by simp
      from gscan_frame(3) [OF rec this] show ?thesis
        using True fault_delta_fields(7) [of ?H fi olds] insert_walk_fields(4,5) [OF iw, of fi]
        by (simp add: sort_data_def s2)
    next
      case False
      then have "a \<in> set rest" "distinct rest" using Cons.prems by simp_all
      from Cons.IH [OF rec this(2) this(1)] show ?thesis by (simp add: dc2 s2)
    qed
  qed
qed

lemma kept_cong:
  "(\<And>a. counters (h' a) = counters (h a)) \<Longrightarrow> kept skip h' olds n = kept skip h olds n"
  using delta_of_cong [of h' h olds n] by (simp add: kept_def)

lemma gscan_totals:
  "gscan X skip sw sb olds todo st = Some st' \<Longrightarrow>
   t_min_fault st' = t_min_fault st
       + sum_list (map (\<lambda>n. min_fault (store_of st n)) (filter (kept skip (store_of st) olds) todo))
   \<and> t_maj_fault st' = t_maj_fault st
       + sum_list (map (\<lambda>n. maj_fault (store_of st n)) (filter (kept skip (store_of st) olds) todo))
   \<and> t_d_min_fault st' = t_d_min_fault st
       + sum_list (map (\<lambda>n. fst (delta_of (store_of st) olds n))
                    (filter (kept skip (store_of st) olds) todo))
   \<and> t_d_maj_fault st' = t_d_maj_fault st
       + sum_list (map (\<lambda>n. snd (delta_of (store_of st) olds n))
                    (filter (kept skip (store_of st) olds) todo))
   \<and> t_vm_swap st' = t_vm_swap st
       + (if sw then sum_list (map (\<lambda>n. vm_swap (store_of st n))
                                (filter (kept skip (store_of st) olds) todo))
          else 0)"
proof (induction todo arbitrary: st)
  case Nil
  then show ?case by simp
next
  case (Cons fi rest)
  let ?H = "store_of st"
  let ?h1 = "fault_delta ?H fi olds"
  have c1: "counters (?h1 a) = counters (?H a)" for a by (rule fault_delta_fields(1))
  from Cons.prems show ?case
  proof (cases rule: gscan_step)
    case skipped
    have k: "kept skip ?h1 olds = kept skip ?H olds"
      by (rule ext) (rule kept_cong, rule c1)
    have d: "delta_of ?h1 olds = delta_of ?H olds"
      by (rule ext) (rule delta_of_cong, rule c1)
    from Cons.IH [OF skipped(2)] show ?thesis
      using skipped(1) by (simp add: k d)
  next
    case (linked h2 head st2)
    note iw = linked(2) and s2 = linked(3)
    have c2: "counters (h2 a) = counters (?H a)" for a
      using insert_walk_fields(1) [OF iw, of a] c1 [of a] by simp
    have k: "kept skip h2 olds = kept skip ?H olds"
      by (rule ext) (rule kept_cong, rule c2)
    have d: "delta_of h2 olds = delta_of ?H olds"
      by (rule ext) (rule delta_of_cong, rule c2)
    have f: "min_fault (h2 a) = min_fault (?H a)" "maj_fault (h2 a) = maj_fault (?H a)"
      "vm_swap (h2 a) = vm_swap (?H a)" for a
      using counters_fields [OF c2 [of a]] by simp_all
    have dd: "d_min_fault (h2 fi) = fst (delta_of ?H olds fi)"
      "d_maj_fault (h2 fi) = snd (delta_of ?H olds fi)"
      using fault_delta_fields(7) [of ?H fi olds] insert_walk_fields(4,5) [OF iw, of fi]
      by (simp_all add: prod_eq_iff)
    from Cons.IH [OF linked(10)] show ?thesis
      using linked(1) by (simp add: s2 k d f dd linked(5-9) add.assoc)
  qed
qed

lemma gscan_chain:
  assumes "chain_list X (store_of st) (sorted_head st) ys"
    and "distinct (ys @ todo)"
    and "\<And>a. a \<in> set todo \<Longrightarrow> get_next X (store_of st a) = None"
  shows "\<exists>st'. gscan X skip sw sb olds todo st = Some st'
           \<and> chain_list X (store_of st') (sorted_head st')
                (foldl (\<lambda>acc n. ins sb (store_of st') n acc) ys
                   (filter (kept skip (store_of st) olds) todo))
           \<and> (\<forall>a. a \<notin> set ys \<longrightarrow> a \<notin> set todo \<longrightarrow>
                  get_next X (store_of st' a) = get_next X (store_of st a))"
  using assms
proof (induction todo arbitrary: st ys)
  case Nil
  then show ?case by simp
next
  case (Cons fi rest)
  let ?H = "store_of st"
  let ?h1 = "fault_delta ?H fi olds"
  have c1: "counters (?h1 a) = counters (?H a)" for a by (rule fault_delta_fields(1))
  have l1: "get_next X (?h1 a) = get_next X (?H a)" for a by (rule fault_delta_fields(4))
  have ch1: "chain_list X ?h1 (sorted_head st) ys"
    using Cons.prems(1) l1 by (simp add: chain_list_cong [of ys X ?h1 ?H])
  have k1: "kept skip ?h1 olds = kept skip ?H olds"
    by (rule ext) (rule kept_cong, rule c1)
  show ?case
  proof (cases "kept skip ?H olds fi")
    case False
    let ?st1 = "st\<lparr>store_of := ?h1\<rparr>"
    have step: "gscan X skip sw sb olds (fi # rest) st = gscan X skip sw sb olds rest ?st1"
      using False by (simp add: kept_iff Let_def)
    have "chain_list X (store_of ?st1) (sorted_head ?st1) ys" using ch1 by simp
    moreover have "distinct (ys @ rest)" using Cons.prems(2) by simp
    moreover have "\<And>a. a \<in> set rest \<Longrightarrow> get_next X (store_of ?st1 a) = None"
      using Cons.prems(3) l1 by simp
    ultimately obtain st' where r: "gscan X skip sw sb olds rest ?st1 = Some st'"
      and c: "chain_list X (store_of st') (sorted_head st')
                (foldl (\<lambda>acc n. ins sb (store_of st') n acc) ys
                   (filter (kept skip (store_of ?st1) olds) rest))"
      and f: "\<forall>a. a \<notin> set ys \<longrightarrow> a \<notin> set rest \<longrightarrow>
                  get_next X (store_of st' a) = get_next X (store_of ?st1 a)"
      using Cons.IH [of ?st1 ys] by blast
    show ?thesis using step r c f False by (simp add: k1 l1)
  next
    case True
    have fin: "fi \<notin> set ys" and dy: "distinct ys" using Cons.prems(2) by auto
    have n1: "get_next X (?h1 fi) = None" using Cons.prems(3) l1 by simp
    obtain h2 head where iw: "insert_walk X sb fi Var ?h1 (sorted_head st) = Some (h2, head)"
      and ch2: "chain_list X h2 head (ins sb ?h1 fi ys)"
      and fr2: "\<And>a. a \<noteq> fi \<Longrightarrow> a \<notin> set ys \<Longrightarrow> h2 a = ?h1 a"
      using insert_walk_top [OF ch1 dy fin n1, of sb] by metis
    let ?st2 = "st\<lparr>store_of := h2, sorted_head := head,
                  t_min_fault := t_min_fault st + min_fault (h2 fi),
                  t_maj_fault := t_maj_fault st + maj_fault (h2 fi),
                  t_d_min_fault := t_d_min_fault st + d_min_fault (h2 fi),
                  t_d_maj_fault := t_d_maj_fault st + d_maj_fault (h2 fi),
                  t_vm_swap := (if sw then t_vm_swap st + vm_swap (h2 fi)
                                else t_vm_swap st)\<rparr>"
    have ns: "\<not> (skip \<and> d_min_fault (?h1 fi) + d_maj_fault (?h1 fi) = 0)"
      using True by (simp add: kept_iff)
    have step: "gscan X skip sw sb olds (fi # rest) st = gscan X skip sw sb olds rest ?st2"
      using iw by (simp only: gscan.simps Let_def if_not_P [OF ns]) simp
    have c2: "counters (h2 a) = counters (?H a)" for a
      using insert_walk_fields(1) [OF iw, of a] c1 [of a] by simp
    have k2: "kept skip h2 olds = kept skip ?H olds"
      by (rule ext) (rule kept_cong, rule c2)
    have "chain_list X (store_of ?st2) (sorted_head ?st2) (ins sb ?h1 fi ys)"
      using ch2 by simp
    moreover have "distinct (ins sb ?h1 fi ys @ rest)" using Cons.prems(2) by auto
    moreover have "\<And>a. a \<in> set rest \<Longrightarrow> get_next X (store_of ?st2 a) = None"
    proof -
      fix a assume a: "a \<in> set rest"
      then have "a \<noteq> fi" "a \<notin> set ys" using Cons.prems(2) by auto
      then have "h2 a = ?h1 a" by (rule fr2)
      then show "get_next X (store_of ?st2 a) = None" using Cons.prems(3) [of a] a l1 by simp
    qed
    ultimately obtain st' where r: "gscan X skip sw sb olds rest ?st2 = Some st'"
      and c: "chain_list X (store_of st') (sorted_head st')
                (foldl (\<lambda>acc n. ins sb (store_of st') n acc) (ins sb ?h1 fi ys)
                   (filter (kept skip (store_of ?st2) olds) rest))"
      and f: "\<forall>a. a \<notin> set (ins sb ?h1 fi ys) \<longrightarrow> a \<notin> set rest \<longrightarrow>
                  get_next X (store_of st' a) = get_next X (store_of ?st2 a)"
      using Cons.IH [of ?st2 "ins sb ?h1 fi ys"] by blast
    have sd: "sort_data (store_of st' a) = sort_data (?h1 a)" if "a \<notin> set rest" for a
      using gscan_frame(3) [OF r that] insert_walk_fields(2) [OF iw, of a] by simp
    have "ins sb (store_of st') fi ys = ins sb ?h1 fi ys"
    proof (rule ins_cong)
      fix a assume "a \<in> set ys"
      then have "a \<notin> set rest" using Cons.prems(2) by auto
      moreover have "fi \<notin> set rest" using Cons.prems(2) by auto
      ultimately show "compare sb (store_of st' a) (store_of st' fi) = compare sb (?h1 a) (?h1 fi)"
        by (intro compare_sort_data sd)
    qed
    then have c': "chain_list X (store_of st') (sorted_head st')
                (foldl (\<lambda>acc n. ins sb (store_of st') n acc) ys
                   (filter (kept skip ?H olds) (fi # rest)))"
      using c True by (simp add: k2)
    have f': "\<forall>a. a \<notin> set ys \<longrightarrow> a \<notin> set (fi # rest) \<longrightarrow>
                  get_next X (store_of st' a) = get_next X (?H a)"
      using f fr2 l1 by simp
    show ?thesis using step r c' f' by simp
  qed
qed

subsection \<open>Insertion gives a stable descending order\<close>

lemma compare_key:
  assumes "0 \<le> sb" and "sb < 7"
  shows "compare sb r1 r2 \<longleftrightarrow> sort_key_of sb r1 < sort_key_of sb r2"
proof -
  have "sb = 0 \<or> sb = 1 \<or> sb = 2 \<or> sb = 3 \<or> sb = 4 \<or> sb = 5 \<or> sb = 6"
    using assms by arith
  then show ?thesis by (auto simp: compare_def sort_key_of_def)
qed

lemma ins_sorted:
  assumes "0 \<le> sb" and "sb < 7"
    and "sorted_wrt (\<lambda>a b. sort_key_of sb (h b) \<le> sort_key_of sb (h a)) xs"
  shows "sorted_wrt (\<lambda>a b. sort_key_of sb (h b) \<le> sort_key_of sb (h a)) (ins sb h fi xs)"
  using assms(3)
proof (induction xs)
  case Nil
  then show ?case by simp
next
  case (Cons x xs)
  show ?case
  proof (cases "compare sb (h x) (h fi)")
    case True
    then have lt: "sort_key_of sb (h x) < sort_key_of sb (h fi)"
      using compare_key [OF assms(1,2)] by simp
    have "\<forall>y \<in> set xs. sort_key_of sb (h y) \<le> sort_key_of sb (h fi)"
      using Cons.prems lt by fastforce
    then show ?thesis using True Cons.prems lt by simp
  next
    case False
    then have ge: "sort_key_of sb (h fi) \<le> sort_key_of sb (h x)"
      using compare_key [OF assms(1,2), of "h x" "h fi"] by simp
    then show ?thesis using False Cons by auto
  qed
qed

lemma ins_filter:
  assumes "0 \<le> sb" and "sb < 7"
    and "sorted_wrt (\<lambda>a b. sort_key_of sb (h b) \<le> sort_key_of sb (h a)) xs"
  shows "filter (\<lambda>a. sort_key_of sb (h a) = k) (ins sb h fi xs)
       = filter (\<lambda>a. sort_key_of sb (h a) = k) xs
         @ (if sort_key_of sb (h fi) = k then [fi] else [])"
  using assms(3)
proof (induction xs)
  case Nil
  then show ?case by simp
next
  case (Cons x xs)
  show ?case
  proof (cases "compare sb (h x) (h fi)")
    case True
    then have lt: "sort_key_of sb (h x) < sort_key_of sb (h fi)"
      using compare_key [OF assms(1,2)] by simp
    have "\<forall>y \<in> set (x # xs). sort_key_of sb (h y) < sort_key_of sb (h fi)"
      using Cons.prems lt by fastforce
    then have "sort_key_of sb (h fi) = k \<Longrightarrow>
        filter (\<lambda>a. sort_key_of sb (h a) = k) (x # xs) = []"
      by (auto simp: filter_empty_conv)
    then show ?thesis using True by auto
  next
    case False
    then show ?thesis using Cons by auto
  qed
qed

lemma foldl_ins_props:
  assumes "0 \<le> sb" and "sb < 7"
    and "sorted_wrt (\<lambda>a b. sort_key_of sb (h b) \<le> sort_key_of sb (h a)) acc"
  shows "sorted_wrt (\<lambda>a b. sort_key_of sb (h b) \<le> sort_key_of sb (h a))
           (foldl (\<lambda>acc n. ins sb h n acc) acc xs)
       \<and> filter (\<lambda>a. sort_key_of sb (h a) = k) (foldl (\<lambda>acc n. ins sb h n acc) acc xs)
           = filter (\<lambda>a. sort_key_of sb (h a) = k) acc
             @ filter (\<lambda>a. sort_key_of sb (h a) = k) xs"
  using assms(3)
proof (induction xs arbitrary: acc)
  case Nil
  then show ?case by simp
next
  case (Cons x xs)
  have s: "sorted_wrt (\<lambda>a b. sort_key_of sb (h b) \<le> sort_key_of sb (h a)) (ins sb h x acc)"
    using assms(1,2) Cons.prems by (rule ins_sorted)
  show ?case
    using Cons.IH [OF s] ins_filter [where k = k and fi = x, OF assms(1,2) Cons.prems] by simp
qed

lemma mset_foldl_ins: "mset (foldl (\<lambda>acc n. ins sb h n acc) acc xs) = mset acc + mset xs"
  by (induction xs arbitrary: acc) simp_all

lemma foldl_ins_sort_key:
  assumes "0 \<le> sb" and "sb < 7"
  shows "foldl (\<lambda>acc n. ins sb h n acc) [] xs = sort_key (\<lambda>a. - sort_key_of sb (h a)) xs"
proof (rule properties_for_sort_key [symmetric])
  let ?ys = "foldl (\<lambda>acc n. ins sb h n acc) [] xs"
  show "mset ?ys = mset xs" by (simp add: mset_foldl_ins)
  have p: "sorted_wrt (\<lambda>a b. sort_key_of sb (h b) \<le> sort_key_of sb (h a)) ?ys"
    and f: "filter (\<lambda>a. sort_key_of sb (h a) = k) ?ys
            = filter (\<lambda>a. sort_key_of sb (h a) = k) xs" for k
    using foldl_ins_props [where acc = "[]" and h = h and k = k and xs = xs, OF assms]
    by simp_all
  show "sorted (map (\<lambda>a. - sort_key_of sb (h a)) ?ys)"
    using p by (simp add: sorted_map)
  fix a assume "a \<in> set ?ys"
  have e: "(\<lambda>x. - sort_key_of sb (h a) = - sort_key_of sb (h x))
         = (\<lambda>x. sort_key_of sb (h x) = sort_key_of sb (h a))"
    by auto
  show "filter (\<lambda>x. - sort_key_of sb (h a) = - sort_key_of sb (h x)) ?ys
      = filter (\<lambda>x. - sort_key_of sb (h a) = - sort_key_of sb (h x)) xs"
    unfolding e by (rule f)
qed

lemma print_sorted_chain: "chain_list S_next h p xs \<Longrightarrow> print_sorted h p = Some xs"
proof (induction xs arbitrary: p)
  case Nil
  then show ?case by (subst print_sorted.simps) simp
next
  case (Cons a as)
  then have "print_sorted h (s_next (h a)) = Some as" by simp
  then show ?case using Cons.prems by (subst print_sorted.simps) simp
qed

lemma kept_no_skip [simp]: "kept False h olds = (\<lambda>n. True)"
  by (rule ext) (simp add: kept_def)

subsection \<open>The JSON dump and the sort order\<close>

lemma finish_fields [simp]:
  "rows (finish st rs) = rs" "store_of (finish st rs) = store_of st"
  "sorted_head (finish st rs) = sorted_head st"
  "t_min_fault (finish st rs) = t_min_fault st" "t_maj_fault (finish st rs) = t_maj_fault st"
  "t_d_min_fault (finish st rs) = t_d_min_fault st"
  "t_d_maj_fault (finish st rs) = t_d_maj_fault st" "t_vm_swap (finish st rs) = t_vm_swap st"
  by (cases st; simp add: finish_def dump_state.defs dump_result.defs)+

lemma dump_init_fields [simp]:
  "store_of (dump_init h) = h" "sorted_head (dump_init h) = None"
  "t_min_fault (dump_init h) = 0" "t_maj_fault (dump_init h) = 0"
  "t_d_min_fault (dump_init h) = 0" "t_d_maj_fault (dump_init h) = 0"
  "t_vm_swap (dump_init h) = 0"
  by (simp_all add: dump_init_def)

lemma first_loop_sorted:
  assumes "distinct news" and "list_all (\<lambda>a. s_next (h a) = None) news"
  obtains st where "gscan S_next False sw sb olds news (dump_init h) = Some st"
    and "chain_list S_next (store_of st) (sorted_head st)
           (foldl (\<lambda>acc n. ins sb (store_of st) n acc) [] news)"
    and "print_sorted (store_of st) (sorted_head st)
           = Some (foldl (\<lambda>acc n. ins sb (store_of st) n acc) [] news)"
proof -
  have "chain_list S_next (store_of (dump_init h)) (sorted_head (dump_init h)) []" by simp
  moreover have "distinct ([] @ news)" using assms(1) by simp
  moreover have "\<And>a. a \<in> set news \<Longrightarrow> get_next S_next (store_of (dump_init h) a) = None"
    using assms(2) by (simp add: list_all_iff)
  ultimately obtain st where g: "gscan S_next False sw sb olds news (dump_init h) = Some st"
    and c: "chain_list S_next (store_of st) (sorted_head st)
           (foldl (\<lambda>acc n. ins sb (store_of st) n acc) []
              (filter (kept False (store_of (dump_init h)) olds) news))"
    using gscan_chain [of S_next "dump_init h" "[]" news False sw sb olds] by blast
  from c have c': "chain_list S_next (store_of st) (sorted_head st)
           (foldl (\<lambda>acc n. ins sb (store_of st) n acc) [] news)" by simp
  show ?thesis using that [OF g c' print_sorted_chain [OF c']] .
qed

lemma sum_list_map_mset:
  fixes f :: "'a \<Rightarrow> 'b :: comm_monoid_add"
  shows "mset xs = mset ys \<Longrightarrow> sum_list (map f xs) = sum_list (map f ys)"
proof -
  assume "mset xs = mset ys"
  then have "mset (map f xs) = mset (map f ys)" by simp
  then have "sum_mset (mset (map f xs)) = sum_mset (mset (map f ys))" by (rule arg_cong)
  then show ?thesis by (simp only: sum_mset_sum_list)
qed

lemma sort_key_cong_set:
  "(\<And>a. a \<in> set xs \<Longrightarrow> f a = g a) \<Longrightarrow> sort_key f xs = sort_key g xs"
proof (rule properties_for_sort_key)
  assume e: "\<And>a. a \<in> set xs \<Longrightarrow> f a = g a"
  show "mset (sort_key g xs) = mset xs" by simp
  have m: "map f (sort_key g xs) = map g (sort_key g xs)"
    using e by (intro map_cong) simp_all
  show "sorted (map f (sort_key g xs))" unfolding m by simp
  fix k assume k: "k \<in> set (sort_key g xs)"
  have "filter (\<lambda>x. f k = f x) (sort_key g xs) = filter (\<lambda>x. g k = g x) (sort_key g xs)"
    using e k by (intro filter_cong) simp_all
  also have "\<dots> = filter (\<lambda>x. g k = g x) xs"
    using sort_key_stable [of g "g k" xs] by (simp add: eq_commute)
  also have "\<dots> = filter (\<lambda>x. f k = f x) xs"
    using e k by (intro filter_cong) simp_all
  finally show "filter (\<lambda>x. f k = f x) (sort_key g xs) = filter (\<lambda>x. f k = f x) xs" .
qed

lemma json_dump_result:
  assumes "distinct news" and "list_all (\<lambda>a. s_next (h a) = None) news"
  obtains st where "json_scan sb olds news (dump_init h) = Some st"
    and "gscan S_next False True sb olds news (dump_init h) = Some st"
    and "fault_dump_json sb h olds news
           = Some (finish st (foldl (\<lambda>acc n. ins sb (store_of st) n acc) [] news))"
proof -
  obtain st where g: "gscan S_next False True sb olds news (dump_init h) = Some st"
    and p: "print_sorted (store_of st) (sorted_head st)
           = Some (foldl (\<lambda>acc n. ins sb (store_of st) n acc) [] news)"
    using first_loop_sorted [OF assms, of True sb olds] by blast
  have j: "json_scan sb olds news (dump_init h) = Some st"
    using g by (simp add: json_scan_gscan)
  show ?thesis using that [OF j g] j p by (simp add: fault_dump_json_def)
qed

text \<open>
  Claim C5.  For a sample list of pairwise different records with null sort linkage (as
  the sampler builds it) and each of the seven sort keys, the insertion loop returns,
  and the rows of the JSON dump are the records of the sample list, each once, in
  descending order of the active key, with records of equal key in the order of the
  sample list: the rows are the stable sort of the sample list by the negated key.
  Sorting the same sample list again with the same key values gives the same order,
  whatever else the store holds.  The first loop of \<^verbatim>\<open>fault_dump\<close> builds the same
  chain.
\<close>

theorem sort_stable_descending:
  assumes "distinct news" and "list_all (\<lambda>a. s_next (h a) = None) news"
    and "0 \<le> sort_by" and "sort_by < 7"
  shows "\<exists>res. fault_dump_json sort_by h olds news = Some res
           \<and> mset (rows res) = mset news
           \<and> sorted_wrt (\<lambda>a b. sort_key_of sort_by (store_of res b)
                                   \<le> sort_key_of sort_by (store_of res a)) (rows res)
           \<and> (\<forall>k. filter (\<lambda>a. sort_key_of sort_by (store_of res a) = k) (rows res)
                    = filter (\<lambda>a. sort_key_of sort_by (store_of res a) = k) news)
           \<and> rows res = sort_key (\<lambda>a. - sort_key_of sort_by (store_of res a)) news
           \<and> (\<forall>h' olds' res'.
                  list_all (\<lambda>a. s_next (h' a) = None) news \<longrightarrow>
                  fault_dump_json sort_by h' olds' news = Some res' \<longrightarrow>
                  (\<forall>a \<in> set news. sort_key_of sort_by (store_of res' a)
                                     = sort_key_of sort_by (store_of res a)) \<longrightarrow>
                  rows res' = rows res)
           \<and> (\<exists>st. dump_scan sort_by olds news (dump_init h) = Some st
                  \<and> print_sorted (store_of st) (sorted_head st)
                      = Some (sort_key (\<lambda>a. - sort_key_of sort_by (store_of st a)) news))"
proof -
  obtain st where r: "fault_dump_json sort_by h olds news
           = Some (finish st (foldl (\<lambda>acc n. ins sort_by (store_of st) n acc) [] news))"
    using json_dump_result [OF assms(1,2), of sort_by olds] by blast
  let ?ys = "foldl (\<lambda>acc n. ins sort_by (store_of st) n acc) [] news"
  let ?res = "finish st ?ys"
  have m: "mset ?ys = mset news" by (simp add: mset_foldl_ins)
  have s: "sorted_wrt (\<lambda>a b. sort_key_of sort_by (store_of st b)
                                   \<le> sort_key_of sort_by (store_of st a)) ?ys"
    and f: "filter (\<lambda>a. sort_key_of sort_by (store_of st a) = k) ?ys
            = filter (\<lambda>a. sort_key_of sort_by (store_of st a) = k) news" for k
    using foldl_ins_props [where acc = "[]" and h = "store_of st" and k = k and xs = news,
        OF assms(3,4)]
    by simp_all
  have e: "?ys = sort_key (\<lambda>a. - sort_key_of sort_by (store_of st a)) news"
    using assms(3,4) by (rule foldl_ins_sort_key)
  have det: "rows res' = rows ?res"
    if l: "list_all (\<lambda>a. s_next (h' a) = None) news"
      and r': "fault_dump_json sort_by h' olds' news = Some res'"
      and k: "\<forall>a \<in> set news. sort_key_of sort_by (store_of res' a)
                                     = sort_key_of sort_by (store_of ?res a)"
    for h' olds' res'
  proof -
    obtain st' where "fault_dump_json sort_by h' olds' news
           = Some (finish st' (foldl (\<lambda>acc n. ins sort_by (store_of st') n acc) [] news))"
      using json_dump_result [OF assms(1) l, of sort_by olds'] by blast
    then have res': "res' = finish st' (foldl (\<lambda>acc n. ins sort_by (store_of st') n acc) [] news)"
      using r' by simp
    have "rows res' = sort_key (\<lambda>a. - sort_key_of sort_by (store_of st' a)) news"
      using foldl_ins_sort_key [OF assms(3,4), of "store_of st'" news] by (simp add: res')
    also have "\<dots> = sort_key (\<lambda>a. - sort_key_of sort_by (store_of st a)) news"
      using k by (intro sort_key_cong_set) (simp add: res')
    finally show ?thesis using e by simp
  qed
  obtain st2 where d: "gscan S_next False False sort_by olds news (dump_init h) = Some st2"
    and p: "print_sorted (store_of st2) (sorted_head st2)
           = Some (foldl (\<lambda>acc n. ins sort_by (store_of st2) n acc) [] news)"
    using first_loop_sorted [OF assms(1,2), of False sort_by olds] by blast
  have d': "dump_scan sort_by olds news (dump_init h) = Some st2
      \<and> print_sorted (store_of st2) (sorted_head st2)
          = Some (sort_key (\<lambda>a. - sort_key_of sort_by (store_of st2 a)) news)"
    using d p foldl_ins_sort_key [OF assms(3,4), of "store_of st2" news]
    by (simp add: dump_scan_gscan)
  show ?thesis
  proof (intro exI [of _ ?res] conjI allI impI)
    show "fault_dump_json sort_by h olds news = Some ?res" by (rule r)
    show "mset (rows ?res) = mset news" using m by simp
    show "sorted_wrt (\<lambda>a b. sort_key_of sort_by (store_of ?res b)
                                   \<le> sort_key_of sort_by (store_of ?res a)) (rows ?res)"
      using s by simp
    show "filter (\<lambda>a. sort_key_of sort_by (store_of ?res a) = k) (rows ?res)
            = filter (\<lambda>a. sort_key_of sort_by (store_of ?res a) = k) news" for k
      using f [of k] by simp
    show "rows ?res = sort_key (\<lambda>a. - sort_key_of sort_by (store_of ?res a)) news"
      using e by simp
    show "rows res' = rows ?res"
      if "list_all (\<lambda>a. s_next (h' a) = None) news"
        and "fault_dump_json sort_by h' olds' news = Some res'"
        and "\<forall>a \<in> set news. sort_key_of sort_by (store_of res' a)
                                     = sort_key_of sort_by (store_of ?res a)"
      for h' olds' res'
      using that by (rule det)
    show "\<exists>st. dump_scan sort_by olds news (dump_init h) = Some st
                  \<and> print_sorted (store_of st) (sorted_head st)
                      = Some (sort_key (\<lambda>a. - sort_key_of sort_by (store_of st a)) news)"
      using d' by blast
  qed
qed

text \<open>
  The hypotheses of C5 hold of the example store with the new records 2 and 3; sorted by
  the sum of the counters, record 3 (29 faults) comes before record 2 (3 faults).
\<close>

theorem sort_stable_descending_witness:
  "distinct [2, 3 :: addr] \<and> s_next (ex_store 2) = None \<and> s_next (ex_store 3) = None
   \<and> map_option rows (fault_dump_json 0 ex_store [1] [2, 3]) = Some [3, 2]"
proof -
  have a: "distinct [2, 3 :: addr]" by simp
  have b: "list_all (\<lambda>a. s_next (ex_store a) = None) [2, 3]"
    by (simp add: ex_store_def zero_fault_info_def)
  have c: "(0 :: int) \<le> 0" "(0 :: int) < 7" by simp_all
  have e: "map_option rows (fault_dump_json 0 ex_store [1] [2, 3]) = Some [3, 2]"
    by code_simp
  show ?thesis
    using sort_stable_descending [OF a b c, of "[1]"] a b e by simp
qed

text \<open>
  Claim C4, as stated, fails in its second half.  In the example store pid 10 (major 5,
  minor 20) is in the previous list only and pid 11 (major 0, minor 3) is new.  The JSON
  dump prints the one row of pid 11, and its totals are those of that row: they are the
  same as with an empty previous list, so the dead process is not represented in them.
\<close>

theorem fault_dump_json_died_counterexample:
  "map_option (\<lambda>r. (rows r, t_maj_fault r, t_min_fault r, t_d_maj_fault r, t_d_min_fault r,
                     t_vm_swap r))
     (fault_dump_json 0 ex_store [1] [2]) = Some ([2], 0, 3, 0, 3, 0)
   \<and> map_option (\<lambda>r. (rows r, t_maj_fault r, t_min_fault r, t_d_maj_fault r, t_d_min_fault r,
                        t_vm_swap r))
        (fault_dump_json 0 ex_store [] [2]) = Some ([2], 0, 3, 0, 3, 0)
   \<and> maj_fault (ex_store 1) = 5 \<and> min_fault (ex_store 1) = 20"
  by code_simp

text \<open>
  Claim C4 (amended).  For a new list of pairwise different records with null sort
  linkage, apart from the records of the previous list, the JSON dump returns and emits
  exactly one object per record of the new list and none for a record of the previous
  list.  Each total is the sum of its column over the emitted rows, that is, over the
  records of the new list: the running totals sum their counters and the delta totals
  sum the deltas that \<^verbatim>\<open>fault_delta\<close> gave them.  A process that died has no row and
  adds nothing to any total.
\<close>

theorem fault_dump_json_rows_totals:
  assumes "distinct (news @ olds)" and "list_all (\<lambda>a. s_next (h a) = None) news"
  shows "\<exists>res. fault_dump_json sort_by h olds news = Some res
           \<and> mset (rows res) = mset news
           \<and> set (rows res) \<inter> set olds = {}
           \<and> t_maj_fault res = sum_list (map (\<lambda>a. maj_fault (store_of res a)) (rows res))
           \<and> t_min_fault res = sum_list (map (\<lambda>a. min_fault (store_of res a)) (rows res))
           \<and> t_d_maj_fault res = sum_list (map (\<lambda>a. d_maj_fault (store_of res a)) (rows res))
           \<and> t_d_min_fault res = sum_list (map (\<lambda>a. d_min_fault (store_of res a)) (rows res))
           \<and> t_vm_swap res = sum_list (map (\<lambda>a. vm_swap (store_of res a)) (rows res))
           \<and> t_maj_fault res = sum_list (map (\<lambda>a. maj_fault (h a)) news)
           \<and> t_min_fault res = sum_list (map (\<lambda>a. min_fault (h a)) news)
           \<and> t_d_maj_fault res = sum_list (map (\<lambda>a. snd (delta_of h olds a)) news)
           \<and> t_d_min_fault res = sum_list (map (\<lambda>a. fst (delta_of h olds a)) news)
           \<and> t_vm_swap res = sum_list (map (\<lambda>a. vm_swap (h a)) news)"
proof -
  have dn: "distinct news" and dj: "set news \<inter> set olds = {}" using assms(1) by auto
  obtain st where g: "gscan S_next False True sort_by olds news (dump_init h) = Some st"
    and r: "fault_dump_json sort_by h olds news
           = Some (finish st (foldl (\<lambda>acc n. ins sort_by (store_of st) n acc) [] news))"
    using json_dump_result [OF dn assms(2), of sort_by olds] by blast
  let ?ys = "foldl (\<lambda>acc n. ins sort_by (store_of st) n acc) [] news"
  let ?res = "finish st ?ys"
  have m: "mset ?ys = mset news" by (simp add: mset_foldl_ins)
  then have se: "set ?ys = set news" by (rule mset_eq_setD)
  have c: "maj_fault (store_of st a) = maj_fault (h a)"
    "min_fault (store_of st a) = min_fault (h a)" "vm_swap (store_of st a) = vm_swap (h a)" for a
    using counters_fields [OF gscan_frame(1) [OF g, of a]] by simp_all
  have d: "d_min_fault (store_of st a) = fst (delta_of h olds a)"
    "d_maj_fault (store_of st a) = snd (delta_of h olds a)" if "a \<in> set news" for a
    using gscan_d_self [OF g dn that] by (simp_all add: prod_eq_iff)
  have dm: "map (\<lambda>a. d_min_fault (store_of st a)) news = map (\<lambda>a. fst (delta_of h olds a)) news"
    and dj': "map (\<lambda>a. d_maj_fault (store_of st a)) news = map (\<lambda>a. snd (delta_of h olds a)) news"
    using d by simp_all
  have t: "t_maj_fault st = sum_list (map (\<lambda>a. maj_fault (h a)) news)"
    "t_min_fault st = sum_list (map (\<lambda>a. min_fault (h a)) news)"
    "t_d_maj_fault st = sum_list (map (\<lambda>a. snd (delta_of h olds a)) news)"
    "t_d_min_fault st = sum_list (map (\<lambda>a. fst (delta_of h olds a)) news)"
    "t_vm_swap st = sum_list (map (\<lambda>a. vm_swap (h a)) news)"
    using gscan_totals [OF g] by simp_all
  have s: "sum_list (map f ?ys) = sum_list (map f news)" for f :: "addr \<Rightarrow> int64"
    using m by (rule sum_list_map_mset)
  show ?thesis
  proof (intro exI [of _ ?res] conjI)
    show "fault_dump_json sort_by h olds news = Some ?res" by (rule r)
    show "mset (rows ?res) = mset news" using m by simp
    show "set (rows ?res) \<inter> set olds = {}" using se dj by simp
    show "t_maj_fault ?res = sum_list (map (\<lambda>a. maj_fault (store_of ?res a)) (rows ?res))"
      by (simp add: s t c)
    show "t_min_fault ?res = sum_list (map (\<lambda>a. min_fault (store_of ?res a)) (rows ?res))"
      by (simp add: s t c)
    show "t_d_maj_fault ?res = sum_list (map (\<lambda>a. d_maj_fault (store_of ?res a)) (rows ?res))"
      by (simp add: s t dj')
    show "t_d_min_fault ?res = sum_list (map (\<lambda>a. d_min_fault (store_of ?res a)) (rows ?res))"
      by (simp add: s t dm)
    show "t_vm_swap ?res = sum_list (map (\<lambda>a. vm_swap (store_of ?res a)) (rows ?res))"
      by (simp add: s t c)
    show "t_maj_fault ?res = sum_list (map (\<lambda>a. maj_fault (h a)) news)" by (simp add: t)
    show "t_min_fault ?res = sum_list (map (\<lambda>a. min_fault (h a)) news)" by (simp add: t)
    show "t_d_maj_fault ?res = sum_list (map (\<lambda>a. snd (delta_of h olds a)) news)"
      by (simp add: t)
    show "t_d_min_fault ?res = sum_list (map (\<lambda>a. fst (delta_of h olds a)) news)"
      by (simp add: t)
    show "t_vm_swap ?res = sum_list (map (\<lambda>a. vm_swap (h a)) news)" by (simp add: t)
  qed
qed

text \<open>
  The hypotheses of C4 (amended) hold in the scenario of the specification: after a tick
  with pid 10 at major 5 and minor 20, the tick with pid 10 at major 9 and minor 20 and
  the new pid 11 at major 0 and minor 3 emits two rows and the totals major 9, minor 23,
  delta major 4 and delta minor 3.
\<close>

theorem fault_dump_json_rows_totals_witness:
  "distinct ([3, 2] @ [1 :: addr])
   \<and> s_next (ex_store 3) = None \<and> s_next (ex_store 2) = None
   \<and> map_option (\<lambda>r. (rows r, t_maj_fault r, t_min_fault r, t_d_maj_fault r, t_d_min_fault r))
        (fault_dump_json 0 ex_store [1] [3, 2]) = Some ([3, 2], 9, 23, 4, 3)"
proof -
  have a: "distinct ([3, 2] @ [1 :: addr])" by simp
  have b: "list_all (\<lambda>a. s_next (ex_store a) = None) [3, 2]"
    by (simp add: ex_store_def zero_fault_info_def)
  have e: "map_option (\<lambda>r. (rows r, t_maj_fault r, t_min_fault r, t_d_maj_fault r,
                           t_d_min_fault r))
        (fault_dump_json 0 ex_store [1] [3, 2]) = Some ([3, 2], 9, 23, 4, 3)"
    by code_simp
  show ?thesis
    using fault_dump_json_rows_totals [OF a b, of 0] a b e by simp
qed

subsection \<open>The second loop\<close>

lemma gdied_step:
  assumes "gdied sub sb (fi # rest) st = Some st'"
  obtains (skipped) "alive (store_of st fi)" "gdied sub sb rest st = Some st'"
    | (linked) h1 head st2 where "\<not> alive (store_of st fi)"
      "insert_walk D_next sb fi Var (store_of st) (sorted_head st) = Some (h1, head)"
      "store_of st2 = h1(fi := (h1 fi)\<lparr>d_min_fault := - min_fault (h1 fi),
                                        d_maj_fault := - maj_fault (h1 fi),
                                        min_fault := 0, maj_fault := 0\<rparr>)"
      "sorted_head st2 = head"
      "t_min_fault st2 = (if sub then t_min_fault st - min_fault (h1 fi)
                          else t_min_fault st + min_fault (h1 fi))"
      "t_maj_fault st2 = (if sub then t_maj_fault st - maj_fault (h1 fi)
                          else t_maj_fault st + maj_fault (h1 fi))"
      "t_d_min_fault st2 = t_d_min_fault st + - min_fault (h1 fi)"
      "t_d_maj_fault st2 = t_d_maj_fault st + - maj_fault (h1 fi)"
      "t_vm_swap st2 = t_vm_swap st"
      "gdied sub sb rest st2 = Some st'"
proof (cases "alive (store_of st fi)")
  case True
  then show ?thesis using assms skipped by simp
next
  case False
  obtain h1 head where
    iw: "insert_walk D_next sb fi Var (store_of st) (sorted_head st) = Some (h1, head)"
    using assms False
    by (cases "insert_walk D_next sb fi Var (store_of st) (sorted_head st)") auto
  let ?st2 = "st\<lparr>store_of := h1(fi := (h1 fi)
                       \<lparr>d_min_fault := - min_fault (h1 fi),
                        d_maj_fault := - maj_fault (h1 fi),
                        min_fault := 0, maj_fault := 0\<rparr>),
                  sorted_head := head,
                  t_min_fault := (if sub then t_min_fault st - min_fault (h1 fi)
                                  else t_min_fault st + min_fault (h1 fi)),
                  t_maj_fault := (if sub then t_maj_fault st - maj_fault (h1 fi)
                                  else t_maj_fault st + maj_fault (h1 fi)),
                  t_d_min_fault := t_d_min_fault st + - min_fault (h1 fi),
                  t_d_maj_fault := t_d_maj_fault st + - maj_fault (h1 fi)\<rparr>"
  have "gdied sub sb rest ?st2 = Some st'" using assms False iw by simp
  then show ?thesis using linked [of h1 head ?st2] False iw by simp
qed

lemma gdied_frame_aux:
  "gdied sub sb todo st = Some st' \<Longrightarrow>
   s_next (store_of st' a) = s_next (store_of st a)
   \<and> alive (store_of st' a) = alive (store_of st a)
   \<and> f_pid (store_of st' a) = f_pid (store_of st a)
   \<and> vm_swap (store_of st' a) = vm_swap (store_of st a)
   \<and> t_vm_swap st' = t_vm_swap st
   \<and> (a \<notin> set todo \<or> alive (store_of st a) \<longrightarrow>
        sort_data (store_of st' a) = sort_data (store_of st a))"
proof (induction todo arbitrary: st)
  case Nil
  then show ?case by simp
next
  case (Cons fi rest)
  from Cons.prems show ?case
  proof (cases rule: gdied_step)
    case skipped
    from Cons.IH [OF skipped(2)] show ?thesis using skipped(1) by auto
  next
    case (linked h1 head st2)
    note iw = linked(2)
    have l: "s_next (h1 b) = s_next (store_of st b)" for b
      using insert_walk_fields(10) [OF iw, of S_next b] by simp
    from Cons.IH [OF linked(10)] show ?thesis
      using linked(1)
      by (auto simp: linked(3,9) l insert_walk_fields [OF iw] sort_data_def)
  qed
qed

lemma gdied_frame:
  assumes "gdied sub sb todo st = Some st'"
  shows "s_next (store_of st' a) = s_next (store_of st a)"
    and "alive (store_of st' a) = alive (store_of st a)"
    and "f_pid (store_of st' a) = f_pid (store_of st a)"
    and "vm_swap (store_of st' a) = vm_swap (store_of st a)"
    and "t_vm_swap st' = t_vm_swap st"
    and "a \<notin> set todo \<or> alive (store_of st a) \<Longrightarrow>
           sort_data (store_of st' a) = sort_data (store_of st a)"
  using gdied_frame_aux [OF assms, of a] by blast+

lemma gdied_died_fields:
  "gdied sub sb todo st = Some st' \<Longrightarrow> distinct todo \<Longrightarrow> a \<in> set todo \<Longrightarrow>
   \<not> alive (store_of st a) \<Longrightarrow>
   min_fault (store_of st' a) = 0 \<and> maj_fault (store_of st' a) = 0
   \<and> d_min_fault (store_of st' a) = - min_fault (store_of st a)
   \<and> d_maj_fault (store_of st' a) = - maj_fault (store_of st a)"
proof (induction todo arbitrary: st)
  case Nil
  then show ?case by simp
next
  case (Cons fi rest)
  from Cons.prems(1) show ?case
  proof (cases rule: gdied_step)
    case skipped
    then have "a \<noteq> fi" using Cons.prems(4) by auto
    then have "a \<in> set rest" "distinct rest" using Cons.prems by simp_all
    from Cons.IH [OF skipped(2) this(2) this(1) Cons.prems(4)] show ?thesis .
  next
    case (linked h1 head st2)
    note iw = linked(2) and s2 = linked(3) and rec = linked(10)
    show ?thesis
    proof (cases "a = fi")
      case True
      then have "a \<notin> set rest" using Cons.prems by simp
      then have "sort_data (store_of st' a) = sort_data (store_of st2 a)"
        using gdied_frame(6) [OF rec] by simp
      then show ?thesis
        using True insert_walk_fields(6,7) [OF iw, of fi]
        by (simp add: s2 sort_data_def)
    next
      case False
      then have a: "a \<in> set rest" "distinct rest" using Cons.prems by simp_all
      have "\<not> alive (store_of st2 a)"
        using Cons.prems(4) False insert_walk_fields(3) [OF iw, of a] by (simp add: s2)
      from Cons.IH [OF rec a(2) a(1) this] show ?thesis
        using False insert_walk_fields(6,7) [OF iw, of a] by (simp add: s2)
    qed
  qed
qed

lemma gdied_totals:
  "gdied sub sb todo st = Some st' \<Longrightarrow> distinct todo \<Longrightarrow>
   t_min_fault st' =
     (if sub
      then t_min_fault st - sum_list (map (\<lambda>a. min_fault (store_of st a))
                                      (filter (\<lambda>a. \<not> alive (store_of st a)) todo))
      else t_min_fault st + sum_list (map (\<lambda>a. min_fault (store_of st a))
                                      (filter (\<lambda>a. \<not> alive (store_of st a)) todo)))
   \<and> t_maj_fault st' =
     (if sub
      then t_maj_fault st - sum_list (map (\<lambda>a. maj_fault (store_of st a))
                                      (filter (\<lambda>a. \<not> alive (store_of st a)) todo))
      else t_maj_fault st + sum_list (map (\<lambda>a. maj_fault (store_of st a))
                                      (filter (\<lambda>a. \<not> alive (store_of st a)) todo)))
   \<and> t_d_min_fault st' = t_d_min_fault st
       + sum_list (map (\<lambda>a. - min_fault (store_of st a))
                    (filter (\<lambda>a. \<not> alive (store_of st a)) todo))
   \<and> t_d_maj_fault st' = t_d_maj_fault st
       + sum_list (map (\<lambda>a. - maj_fault (store_of st a))
                    (filter (\<lambda>a. \<not> alive (store_of st a)) todo))"
proof (induction todo arbitrary: st)
  case Nil
  then show ?case by simp
next
  case (Cons fi rest)
  have dr: "distinct rest" and fr: "fi \<notin> set rest" using Cons.prems(2) by simp_all
  from Cons.prems(1) show ?case
  proof (cases rule: gdied_step)
    case skipped
    from Cons.IH [OF skipped(2) dr] show ?thesis using skipped(1) by simp
  next
    case (linked h1 head st2)
    note iw = linked(2) and s2 = linked(3) and rec = linked(10)
    let ?H = "store_of st"
    have e: "min_fault (store_of st2 a) = min_fault (?H a)"
      "maj_fault (store_of st2 a) = maj_fault (?H a)"
      "alive (store_of st2 a) = alive (?H a)" if "a \<in> set rest" for a
    proof -
      have "a \<noteq> fi" using that fr by auto
      then show "min_fault (store_of st2 a) = min_fault (?H a)"
        "maj_fault (store_of st2 a) = maj_fault (?H a)"
        "alive (store_of st2 a) = alive (?H a)"
        using insert_walk_fields(3,6,7) [OF iw, of a] by (simp_all add: s2)
    qed
    have F: "filter (\<lambda>a. \<not> alive (store_of st2 a)) rest = filter (\<lambda>a. \<not> alive (?H a)) rest"
      by (rule filter_cong) (simp_all add: e)
    have M: "map (\<lambda>a. min_fault (store_of st2 a)) (filter P rest)
           = map (\<lambda>a. min_fault (?H a)) (filter P rest)"
      "map (\<lambda>a. maj_fault (store_of st2 a)) (filter P rest)
           = map (\<lambda>a. maj_fault (?H a)) (filter P rest)"
      "map (\<lambda>a. - min_fault (store_of st2 a)) (filter P rest)
           = map (\<lambda>a. - min_fault (?H a)) (filter P rest)"
      "map (\<lambda>a. - maj_fault (store_of st2 a)) (filter P rest)
           = map (\<lambda>a. - maj_fault (?H a)) (filter P rest)" for P
      by (rule map_cong, simp, simp add: e)+
    have h: "min_fault (h1 fi) = min_fault (?H fi)" "maj_fault (h1 fi) = maj_fault (?H fi)"
      using insert_walk_fields(6,7) [OF iw, of fi] by simp_all
    from Cons.IH [OF rec dr] show ?thesis
      using linked(1) by (simp add: F M h linked(5-8) algebra_simps)
  qed
qed

lemma ins_head:
  "ins sb h fi zs = fi # zs \<or> (\<exists>z zs'. zs = z # zs' \<and> ins sb h fi zs = z # ins sb h fi zs')"
  by (cases zs) auto

lemma chain_list_head:
  "chain_list X h p (z # zs) \<Longrightarrow> p = Some z"
  by simp

lemma gdied_chain:
  assumes "chain_list D_next (store_of st) (sorted_head st) zs"
    and "distinct (zs @ todo)"
    and "\<And>a. a \<in> set todo \<Longrightarrow> d_next (store_of st a) = None"
  shows "\<exists>st' zs'. gdied sub sb todo st = Some st'
           \<and> chain_list D_next (store_of st') (sorted_head st') zs'
           \<and> mset zs' = mset zs + mset (filter (\<lambda>a. \<not> alive (store_of st a)) todo)
           \<and> (sorted_head st' = sorted_head st
                \<or> (\<exists>a \<in> set todo. \<not> alive (store_of st a) \<and> sorted_head st' = Some a))"
  using assms
proof (induction todo arbitrary: st zs)
  case Nil
  then show ?case by auto
next
  case (Cons fi rest)
  let ?H = "store_of st"
  show ?case
  proof (cases "alive (?H fi)")
    case True
    have "distinct (zs @ rest)" using Cons.prems(2) by simp
    moreover have "\<And>a. a \<in> set rest \<Longrightarrow> d_next (?H a) = None" using Cons.prems(3) by simp
    ultimately obtain st' zs' where "gdied sub sb rest st = Some st'"
      "chain_list D_next (store_of st') (sorted_head st') zs'"
      "mset zs' = mset zs + mset (filter (\<lambda>a. \<not> alive (?H a)) rest)"
      "sorted_head st' = sorted_head st
         \<or> (\<exists>a \<in> set rest. \<not> alive (?H a) \<and> sorted_head st' = Some a)"
      using Cons.IH [OF Cons.prems(1)] by blast
    then show ?thesis using True by auto
  next
    case False
    have fin: "fi \<notin> set zs" and dz: "distinct zs" and fr: "fi \<notin> set rest"
      using Cons.prems(2) by auto
    have n: "get_next D_next (?H fi) = None" using Cons.prems(3) by simp
    obtain h1 head where iw: "insert_walk D_next sb fi Var ?H (sorted_head st) = Some (h1, head)"
      and ch1: "chain_list D_next h1 head (ins sb ?H fi zs)"
      and fr1: "\<And>a. a \<noteq> fi \<Longrightarrow> a \<notin> set zs \<Longrightarrow> h1 a = ?H a"
      using insert_walk_top [OF Cons.prems(1) dz fin n, of sb] by metis
    let ?h2 = "h1(fi := (h1 fi)\<lparr>d_min_fault := - min_fault (h1 fi),
                                        d_maj_fault := - maj_fault (h1 fi),
                                        min_fault := 0, maj_fault := 0\<rparr>)"
    let ?st2 = "st\<lparr>store_of := ?h2, sorted_head := head,
                  t_min_fault := (if sub then t_min_fault st - min_fault (h1 fi)
                                  else t_min_fault st + min_fault (h1 fi)),
                  t_maj_fault := (if sub then t_maj_fault st - maj_fault (h1 fi)
                                  else t_maj_fault st + maj_fault (h1 fi)),
                  t_d_min_fault := t_d_min_fault st + - min_fault (h1 fi),
                  t_d_maj_fault := t_d_maj_fault st + - maj_fault (h1 fi)\<rparr>"
    have step: "gdied sub sb (fi # rest) st = gdied sub sb rest ?st2"
      using False iw by simp
    have "chain_list D_next ?h2 head (ins sb ?H fi zs)"
      using ch1 by (subst chain_list_cong [of _ _ ?h2 h1]) simp_all
    then have c2: "chain_list D_next (store_of ?st2) (sorted_head ?st2) (ins sb ?H fi zs)"
      by simp
    have d2: "distinct (ins sb ?H fi zs @ rest)" using Cons.prems(2) by auto
    have n2: "\<And>a. a \<in> set rest \<Longrightarrow> d_next (store_of ?st2 a) = None"
    proof -
      fix a assume a: "a \<in> set rest"
      then have "a \<noteq> fi" "a \<notin> set zs" using Cons.prems(2) by auto
      then show "d_next (store_of ?st2 a) = None" using fr1 [of a] Cons.prems(3) [of a] a by simp
    qed
    obtain st' zs' where r: "gdied sub sb rest ?st2 = Some st'"
      and c: "chain_list D_next (store_of st') (sorted_head st') zs'"
      and m: "mset zs' = mset (ins sb ?H fi zs)
                 + mset (filter (\<lambda>a. \<not> alive (store_of ?st2 a)) rest)"
      and hd: "sorted_head st' = sorted_head ?st2
         \<or> (\<exists>a \<in> set rest. \<not> alive (store_of ?st2 a) \<and> sorted_head st' = Some a)"
      using Cons.IH [OF c2 d2 n2] by blast
    have al: "alive (store_of ?st2 a) = alive (?H a)" for a
      by (cases "a = fi") (simp_all add: insert_walk_fields(3) [OF iw])
    have alf: "(\<lambda>a. \<not> alive (store_of ?st2 a)) = (\<lambda>a. \<not> alive (?H a))"
      by (rule ext) (simp only: al)
    have m': "mset zs' = mset zs + mset (filter (\<lambda>a. \<not> alive (?H a)) (fi # rest))"
      using m False unfolding alf by simp
    have "head = sorted_head st \<or> head = Some fi"
    proof (cases zs)
      case Nil
      then show ?thesis using ch1 by simp
    next
      case (Cons z zs')
      then have "sorted_head st = Some z" using Cons.prems(1) by simp
      then show ?thesis using ch1 Cons by (auto split: if_splits)
    qed
    moreover have "sorted_head st' = head
         \<or> (\<exists>a \<in> set rest. \<not> alive (?H a) \<and> sorted_head st' = Some a)"
      using hd unfolding al by simp
    ultimately have hd': "sorted_head st' = sorted_head st
         \<or> (\<exists>a \<in> set (fi # rest). \<not> alive (?H a) \<and> sorted_head st' = Some a)"
      using False by auto
    show ?thesis using step r c m' hd' by auto
  qed
qed

subsection \<open>The full dump and the diff dump\<close>

lemma gscan_from_init:
  assumes "distinct news" and "\<And>a. a \<in> set news \<Longrightarrow> get_next X (h a) = None"
  obtains st where "gscan X skip sw sb olds news (dump_init h) = Some st"
    and "chain_list X (store_of st) (sorted_head st)
           (foldl (\<lambda>acc n. ins sb (store_of st) n acc) [] (filter (kept skip h olds) news))"
    and "\<And>a. a \<notin> set news \<Longrightarrow> get_next X (store_of st a) = get_next X (h a)"
proof -
  have "chain_list X (store_of (dump_init h)) (sorted_head (dump_init h)) []" by simp
  moreover have "distinct ([] @ news)" using assms(1) by simp
  moreover have "\<And>a. a \<in> set news \<Longrightarrow> get_next X (store_of (dump_init h) a) = None"
    using assms(2) by simp
  ultimately obtain st where g: "gscan X skip sw sb olds news (dump_init h) = Some st"
    and c: "chain_list X (store_of st) (sorted_head st)
           (foldl (\<lambda>acc n. ins sb (store_of st) n acc) []
              (filter (kept skip (store_of (dump_init h)) olds) news))"
    and f: "\<forall>a. a \<notin> set [] \<longrightarrow> a \<notin> set news \<longrightarrow>
              get_next X (store_of st a) = get_next X (store_of (dump_init h) a)"
    using gscan_chain [of X "dump_init h" "[]" news skip sw sb olds] by blast
  show ?thesis using that [OF g] c f by simp
qed

lemma tick_startD:
  assumes "tick_start h olds news"
  shows "distinct news" and "distinct olds" and "set news \<inter> set olds = {}"
    and "\<And>a. a \<in> set news \<union> set olds \<Longrightarrow> s_next (h a) = None \<and> d_next (h a) = None"
    and "\<And>a. a \<in> set olds \<Longrightarrow> \<not> alive (h a)"
  using assms by (auto simp: tick_start_def list_all_iff)

lemma matched_iff_pid:
  assumes "distinct (map (\<lambda>a. f_pid (h a)) olds)" and "old \<in> set olds"
  shows "(\<exists>n \<in> set news. old_match h olds n = Some old)
           \<longleftrightarrow> f_pid (h old) \<in> (\<lambda>a. f_pid (h a)) ` set news"
proof
  assume "\<exists>n \<in> set news. old_match h olds n = Some old"
  then show "f_pid (h old) \<in> (\<lambda>a. f_pid (h a)) ` set news"
    using old_match_props by fastforce
next
  assume "f_pid (h old) \<in> (\<lambda>a. f_pid (h a)) ` set news"
  then obtain n where n: "n \<in> set news" "f_pid (h old) = f_pid (h n)" by auto
  have "f_pid (h old) \<in> (\<lambda>a. f_pid (h a)) ` set olds" using assms(2) by (rule imageI)
  then have "f_pid (h n) \<in> (\<lambda>a. f_pid (h a)) ` set olds" using n(2) by simp
  then obtain o' where o': "old_match h olds n = Some o'"
    using old_match_Some_iff [of h olds n] by blast
  then have p: "o' \<in> set olds" "f_pid (h o') = f_pid (h n)"
    using old_match_props [OF o'] by simp_all
  have "inj_on (\<lambda>a. f_pid (h a)) (set olds)" using assms(1) by (simp add: distinct_map)
  moreover have "f_pid (h o') = f_pid (h old)" using p(2) n(2) by simp
  ultimately have "o' = old" using p(1) assms(2) by (rule inj_onD)
  then show "\<exists>n \<in> set news. old_match h olds n = Some old" using o' n(1) by blast
qed

lemma unmatched_not_alive:
  assumes "gscan X skip sw sb olds news (dump_init h) = Some st"
    and "\<not> alive (h old)"
    and "f_pid (h old) \<notin> (\<lambda>a. f_pid (h a)) ` set news"
  shows "\<not> alive (store_of st old)"
proof -
  have "\<not> (\<exists>n \<in> set news. old_match h olds n = Some old)"
    using assms(3) old_match_props by fastforce
  then show ?thesis using gscan_frame(4) [OF assms(1), of old] assms(2) by simp
qed



lemma died_not_alive:
  assumes "gscan X skip sw sb olds news (dump_init h) = Some st"
    and "distinct (map (\<lambda>a. f_pid (h a)) olds)"
    and "\<And>a. a \<in> set olds \<Longrightarrow> \<not> alive (h a)"
  shows "filter (\<lambda>a. \<not> alive (store_of st a)) olds = died h olds news"
  unfolding died_def
proof (rule filter_cong [OF refl])
  fix a assume a: "a \<in> set olds"
  have "alive (store_of st a) \<longleftrightarrow> (\<exists>n \<in> set news. old_match h olds n = Some a)"
    using gscan_frame(4) [OF assms(1), of a] assms(3) [OF a] by simp
  also have "\<dots> \<longleftrightarrow> f_pid (h a) \<in> (\<lambda>n. f_pid (h n)) ` set news"
    by (rule matched_iff_pid [OF assms(2) a])
  finally show "(\<not> alive (store_of st a)) = (f_pid (h a) \<notin> (\<lambda>n. f_pid (h n)) ` set news)"
    by simp
qed

lemma two_loops_effect:
  assumes al: "list_all (\<lambda>a. \<not> alive (h a)) olds"
    and dp: "distinct (map (\<lambda>a. f_pid (h a)) olds)"
    and g1: "gscan X skip False sb olds news (dump_init h) = Some st1"
    and g2: "gdied sub sb olds st1 = Some st2"
  shows "\<And>old. old \<in> set (died h olds news) \<Longrightarrow>
            d_min_fault (store_of st2 old) = - min_fault (h old)
            \<and> d_maj_fault (store_of st2 old) = - maj_fault (h old)
            \<and> min_fault (store_of st2 old) = 0 \<and> maj_fault (store_of st2 old) = 0"
    and "t_d_min_fault st2 =
           sum_list (map (\<lambda>a. fst (delta_of h olds a)) (filter (kept skip h olds) news))
           + sum_list (map (\<lambda>a. - min_fault (h a)) (died h olds news))"
    and "t_d_maj_fault st2 =
           sum_list (map (\<lambda>a. snd (delta_of h olds a)) (filter (kept skip h olds) news))
           + sum_list (map (\<lambda>a. - maj_fault (h a)) (died h olds news))"
    and "t_min_fault st2 =
           (if sub
            then sum_list (map (\<lambda>a. min_fault (h a)) (filter (kept skip h olds) news))
                 - sum_list (map (\<lambda>a. min_fault (h a)) (died h olds news))
            else sum_list (map (\<lambda>a. min_fault (h a)) (filter (kept skip h olds) news))
                 + sum_list (map (\<lambda>a. min_fault (h a)) (died h olds news)))"
    and "t_maj_fault st2 =
           (if sub
            then sum_list (map (\<lambda>a. maj_fault (h a)) (filter (kept skip h olds) news))
                 - sum_list (map (\<lambda>a. maj_fault (h a)) (died h olds news))
            else sum_list (map (\<lambda>a. maj_fault (h a)) (filter (kept skip h olds) news))
                 + sum_list (map (\<lambda>a. maj_fault (h a)) (died h olds news)))"
proof -
  have d: "distinct olds" using dp by (simp add: distinct_map)
  let ?H1 = "store_of st1"
  have c: "min_fault (?H1 a) = min_fault (h a)" "maj_fault (?H1 a) = maj_fault (h a)" for a
    using counters_fields [OF gscan_frame(1) [OF g1, of a]] by simp_all
  have fd: "filter (\<lambda>a. \<not> alive (?H1 a)) olds = died h olds news"
    using g1 dp by (rule died_not_alive) (use al in \<open>simp add: list_all_iff\<close>)
  have t1: "t_min_fault st1 = sum_list (map (\<lambda>a. min_fault (h a)) (filter (kept skip h olds) news))"
    "t_maj_fault st1 = sum_list (map (\<lambda>a. maj_fault (h a)) (filter (kept skip h olds) news))"
    "t_d_min_fault st1
       = sum_list (map (\<lambda>a. fst (delta_of h olds a)) (filter (kept skip h olds) news))"
    "t_d_maj_fault st1
       = sum_list (map (\<lambda>a. snd (delta_of h olds a)) (filter (kept skip h olds) news))"
    using gscan_totals [OF g1] by simp_all
  note t2 = gdied_totals [OF g2 d, unfolded fd c t1]
  show "t_d_min_fault st2 =
           sum_list (map (\<lambda>a. fst (delta_of h olds a)) (filter (kept skip h olds) news))
           + sum_list (map (\<lambda>a. - min_fault (h a)) (died h olds news))"
    using t2 by blast
  show "t_d_maj_fault st2 =
           sum_list (map (\<lambda>a. snd (delta_of h olds a)) (filter (kept skip h olds) news))
           + sum_list (map (\<lambda>a. - maj_fault (h a)) (died h olds news))"
    using t2 by blast
  show "t_min_fault st2 =
           (if sub
            then sum_list (map (\<lambda>a. min_fault (h a)) (filter (kept skip h olds) news))
                 - sum_list (map (\<lambda>a. min_fault (h a)) (died h olds news))
            else sum_list (map (\<lambda>a. min_fault (h a)) (filter (kept skip h olds) news))
                 + sum_list (map (\<lambda>a. min_fault (h a)) (died h olds news)))"
    using t2 by blast
  show "t_maj_fault st2 =
           (if sub
            then sum_list (map (\<lambda>a. maj_fault (h a)) (filter (kept skip h olds) news))
                 - sum_list (map (\<lambda>a. maj_fault (h a)) (died h olds news))
            else sum_list (map (\<lambda>a. maj_fault (h a)) (filter (kept skip h olds) news))
                 + sum_list (map (\<lambda>a. maj_fault (h a)) (died h olds news)))"
    using t2 by blast
  fix old assume "old \<in> set (died h olds news)"
  then have o: "old \<in> set olds" "\<not> alive (?H1 old)"
    unfolding fd [symmetric] by simp_all
  show "d_min_fault (store_of st2 old) = - min_fault (h old)
            \<and> d_maj_fault (store_of st2 old) = - maj_fault (h old)
            \<and> min_fault (store_of st2 old) = 0 \<and> maj_fault (store_of st2 old) = 0"
    using gdied_died_fields [OF g2 d o] by (simp add: c)
qed

lemma print_deltas_chain:
  "chain_list D_next h p xs \<Longrightarrow> distinct xs \<Longrightarrow>
   print_deltas h p = Some (xs, (\<lambda>a. if a \<in> set xs then (h a)\<lparr>d_next := None\<rparr> else h a))"
proof (induction xs arbitrary: h p)
  case Nil
  then show ?case by (subst print_deltas.simps) simp
next
  case (Cons a as)
  let ?h1 = "h(a := (h a)\<lparr>d_next := None\<rparr>)"
  from Cons.prems have p: "p = Some a" and c: "chain_list D_next h (d_next (h a)) as"
    and a: "a \<notin> set as" and d: "distinct as" by simp_all
  have "chain_list D_next ?h1 (d_next (h a)) as" using c a by (simp add: chain_list_upd)
  then have "print_deltas ?h1 (d_next (h a))
      = Some (as, (\<lambda>b. if b \<in> set as then (?h1 b)\<lparr>d_next := None\<rparr> else ?h1 b))"
    using d by (rule Cons.IH)
  moreover have "(\<lambda>b. if b \<in> set as then (?h1 b)\<lparr>d_next := None\<rparr> else ?h1 b)
      = (\<lambda>b. if b \<in> set (a # as) then (h b)\<lparr>d_next := None\<rparr> else h b)"
    using a by (auto simp: fun_eq_iff)
  ultimately show ?case unfolding p by (subst print_deltas.simps) simp
qed

lemma fault_dump_diff_run:
  assumes "tick_start h olds news" and "distinct (map (\<lambda>a. f_pid (h a)) olds)"
  obtains st1 st2 rs h' where
    "gscan D_next True False sb olds news (dump_init h) = Some st1"
    and "gdied True sb olds st1 = Some st2"
    and "fault_dump_diff sb h olds news = Some (finish (st2\<lparr>store_of := h'\<rparr>) rs)"
    and "mset rs = mset (filter (kept True h olds) news) + mset (died h olds news)"
    and "h' = (\<lambda>a. if a \<in> set rs then (store_of st2 a)\<lparr>d_next := None\<rparr> else store_of st2 a)"
proof -
  note ts = tick_startD [OF assms(1)]
  let ?ys = "\<lambda>st. foldl (\<lambda>acc n. ins sb (store_of st) n acc) [] (filter (kept True h olds) news)"
  have dn0: "\<And>a. a \<in> set news \<Longrightarrow> get_next D_next (h a) = None" using ts(4) by simp
  obtain st1 where g1: "gscan D_next True False sb olds news (dump_init h) = Some st1"
    and c1: "chain_list D_next (store_of st1) (sorted_head st1) (?ys st1)"
    and f1: "\<And>a. a \<notin> set news \<Longrightarrow> get_next D_next (store_of st1 a) = get_next D_next (h a)"
  proof (rule gscan_from_init [where X = D_next and skip = True and sw = False and sb = sb
        and olds = olds, OF ts(1) dn0])
    fix st
    assume "gscan D_next True False sb olds news (dump_init h) = Some st"
      and "chain_list D_next (store_of st) (sorted_head st) (?ys st)"
      and "\<And>a. a \<notin> set news \<Longrightarrow> get_next D_next (store_of st a) = get_next D_next (h a)"
    then show thesis by (rule that)
  qed
  let ?H1 = "store_of st1"
  have m1: "mset (?ys st1) = mset (filter (kept True h olds) news)"
    by (simp add: mset_foldl_ins)
  then have ys: "set (?ys st1) = set (filter (kept True h olds) news)" by (rule mset_eq_setD)
  have dy: "distinct (?ys st1)"
    using mset_eq_imp_distinct_iff [OF m1] ts(1) by simp
  have dz: "distinct (?ys st1 @ olds)"
    using dy ys ts(2,3) by auto
  have dn: "\<And>a. a \<in> set olds \<Longrightarrow> d_next (?H1 a) = None"
  proof -
    fix a assume a: "a \<in> set olds"
    then have "a \<notin> set news" using ts(3) by auto
    then show "d_next (?H1 a) = None" using f1 [of a] ts(4) [of a] a by simp
  qed
  have fd: "filter (\<lambda>a. \<not> alive (?H1 a)) olds = died h olds news"
    using g1 assms(2) ts(5) by (rule died_not_alive)
  obtain st2 zs' where g2: "gdied True sb olds st1 = Some st2"
    and c2: "chain_list D_next (store_of st2) (sorted_head st2) zs'"
    and m2: "mset zs' = mset (?ys st1) + mset (died h olds news)"
    using gdied_chain [where sub = True and sb = sb, OF c1 dz dn] unfolding fd by blast
  have m3: "mset zs' = mset (filter (kept True h olds) news @ died h olds news)"
    using m2 m1 by simp
  have "distinct (filter (kept True h olds) news @ died h olds news)"
    using ts(1,2,3) by (auto simp: died_def)
  then have dz': "distinct zs'" using mset_eq_imp_distinct_iff [OF m3] by simp
  let ?h' = "\<lambda>a. if a \<in> set zs' then (store_of st2 a)\<lparr>d_next := None\<rparr> else store_of st2 a"
  have p: "print_deltas (store_of st2) (sorted_head st2) = Some (zs', ?h')"
    using c2 dz' by (rule print_deltas_chain)
  have r: "fault_dump_diff sb h olds news = Some (finish (st2\<lparr>store_of := ?h'\<rparr>) zs')"
    using g1 g2 p by (simp add: fault_dump_diff_def diff_scan_gscan diff_died_gdied)
  have m4: "mset zs' = mset (filter (kept True h olds) news) + mset (died h olds news)"
    using m3 by simp
  show thesis
    by (rule that [OF g1 g2 r m4 refl])
qed



text \<open>
  The diff dump, for comparison.  At a tick that starts with null sort links it returns;
  the dead records get the negated deltas and zeroed counters, their last counters are
  subtracted from the running totals, and its rows are the new records with a non-zero
  delta sum together with the dead records, each once.  It clears the \<^verbatim>\<open>d_next\<close> of
  every row it prints, so the next tick starts with null links again.
\<close>

lemma fault_dump_diff_died_rows:
  assumes "tick_start h olds news" and "distinct (map (\<lambda>a. f_pid (h a)) olds)"
  shows "\<exists>res. fault_dump_diff sort_by h olds news = Some res
            \<and> (\<forall>old \<in> set olds. f_pid (h old) \<notin> (\<lambda>n. f_pid (h n)) ` set news \<longrightarrow>
                  d_min_fault (store_of res old) = - min_fault (h old)
                  \<and> d_maj_fault (store_of res old) = - maj_fault (h old)
                  \<and> min_fault (store_of res old) = 0 \<and> maj_fault (store_of res old) = 0
                  \<and> old \<in> set (rows res))
            \<and> (\<forall>a \<in> set (rows res). d_next (store_of res a) = None)
            \<and> mset (rows res) = mset (filter (kept True h olds) news) + mset (died h olds news)
            \<and> t_d_min_fault res
                = sum_list (map (\<lambda>a. fst (delta_of h olds a)) (filter (kept True h olds) news))
                  + sum_list (map (\<lambda>a. - min_fault (h a)) (died h olds news))
            \<and> t_d_maj_fault res
                = sum_list (map (\<lambda>a. snd (delta_of h olds a)) (filter (kept True h olds) news))
                  + sum_list (map (\<lambda>a. - maj_fault (h a)) (died h olds news))
            \<and> t_min_fault res
                = sum_list (map (\<lambda>a. min_fault (h a)) (filter (kept True h olds) news))
                  - sum_list (map (\<lambda>a. min_fault (h a)) (died h olds news))
            \<and> t_maj_fault res
                = sum_list (map (\<lambda>a. maj_fault (h a)) (filter (kept True h olds) news))
                  - sum_list (map (\<lambda>a. maj_fault (h a)) (died h olds news))"
proof -
  obtain st1 st2 rs h' where g1: "gscan D_next True False sort_by olds news (dump_init h) = Some st1"
    and g2: "gdied True sort_by olds st1 = Some st2"
    and r: "fault_dump_diff sort_by h olds news = Some (finish (st2\<lparr>store_of := h'\<rparr>) rs)"
    and m: "mset rs = mset (filter (kept True h olds) news) + mset (died h olds news)"
    and h': "h' = (\<lambda>a. if a \<in> set rs then (store_of st2 a)\<lparr>d_next := None\<rparr> else store_of st2 a)"
    using assms by (rule fault_dump_diff_run [where sb = sort_by])
  have al: "list_all (\<lambda>a. \<not> alive (h a)) olds"
    using tick_startD(5) [OF assms(1)] by (simp add: list_all_iff)
  note e = two_loops_effect [OF al assms(2) g1 g2]
  let ?res = "finish (st2\<lparr>store_of := h'\<rparr>) rs"
  have v: "d_min_fault (h' a) = d_min_fault (store_of st2 a)"
    "d_maj_fault (h' a) = d_maj_fault (store_of st2 a)"
    "min_fault (h' a) = min_fault (store_of st2 a)"
    "maj_fault (h' a) = maj_fault (store_of st2 a)" for a
    by (simp_all add: h')
  have s: "set rs = set (filter (kept True h olds) news) \<union> set (died h olds news)"
  proof -
    have "mset rs = mset (filter (kept True h olds) news @ died h olds news)" using m by simp
    then have "set rs = set (filter (kept True h olds) news @ died h olds news)"
      by (rule mset_eq_setD)
    then show ?thesis by simp
  qed
  have f: "\<forall>old \<in> set olds. f_pid (h old) \<notin> (\<lambda>n. f_pid (h n)) ` set news \<longrightarrow>
                  d_min_fault (store_of ?res old) = - min_fault (h old)
                  \<and> d_maj_fault (store_of ?res old) = - maj_fault (h old)
                  \<and> min_fault (store_of ?res old) = 0 \<and> maj_fault (store_of ?res old) = 0
                  \<and> old \<in> set (rows ?res)"
  proof (intro ballI impI)
    fix old assume "old \<in> set olds" and "f_pid (h old) \<notin> (\<lambda>n. f_pid (h n)) ` set news"
    then have d: "old \<in> set (died h olds news)" by (simp add: died_def)
    then have "old \<in> set rs" using s by simp
    then show "d_min_fault (store_of ?res old) = - min_fault (h old)
                  \<and> d_maj_fault (store_of ?res old) = - maj_fault (h old)
                  \<and> min_fault (store_of ?res old) = 0 \<and> maj_fault (store_of ?res old) = 0
                  \<and> old \<in> set (rows ?res)"
      using e(1) [OF d] by (simp add: v)
  qed
  have n: "\<forall>a \<in> set (rows ?res). d_next (store_of ?res a) = None" by (simp add: h')
  have m': "mset (rows ?res) = mset (filter (kept True h olds) news) + mset (died h olds news)"
    using m by simp
  have t: "t_d_min_fault ?res
                = sum_list (map (\<lambda>a. fst (delta_of h olds a)) (filter (kept True h olds) news))
                  + sum_list (map (\<lambda>a. - min_fault (h a)) (died h olds news))"
    "t_d_maj_fault ?res
                = sum_list (map (\<lambda>a. snd (delta_of h olds a)) (filter (kept True h olds) news))
                  + sum_list (map (\<lambda>a. - maj_fault (h a)) (died h olds news))"
    "t_min_fault ?res
                = sum_list (map (\<lambda>a. min_fault (h a)) (filter (kept True h olds) news))
                  - sum_list (map (\<lambda>a. min_fault (h a)) (died h olds news))"
    "t_maj_fault ?res
                = sum_list (map (\<lambda>a. maj_fault (h a)) (filter (kept True h olds) news))
                  - sum_list (map (\<lambda>a. maj_fault (h a)) (died h olds news))"
    using e(2) e(3) e(4) e(5) by simp_all
  show ?thesis
    by (intro exI [of _ ?res] conjI r f n m' t)
qed




subsection \<open>A full dump that does not return\<close>

lemma insert_walk_cycle:
  assumes cyc: "\<And>a. a \<in> S \<Longrightarrow>
      \<exists>b \<in> S. get_next X (h a) = Some b \<and> \<not> compare sb (h b) (h fi)"
    and a: "a \<in> S"
  shows "insert_walk X sb fi (Field a) h head = None"
proof (rule ccontr)
  assume "insert_walk X sb fi (Field a) h head \<noteq> None"
  then obtain r where r: "insert_walk X sb fi (Field a) h head = Some r" by blast
  have "X = X \<longrightarrow> sb = sb \<longrightarrow> fi = fi \<longrightarrow> h = h \<longrightarrow> \<not> (\<exists>c \<in> S. Field a = Field c)"
  proof (rule insert_walk.raw_induct
      [where P = "\<lambda>X' sb' fi' l' h' head' r'.
          X' = X \<longrightarrow> sb' = sb \<longrightarrow> fi' = fi \<longrightarrow> h' = h \<longrightarrow> \<not> (\<exists>c \<in> S. l' = Field c)"
        and X = X and sort_by = sb and fault_info = fi and h = h and l = "Field a",
        OF _ r])
    fix iw :: "linkage \<Rightarrow> int \<Rightarrow> addr \<Rightarrow> cell \<Rightarrow> store \<Rightarrow> addr option \<Rightarrow> (store \<times> addr option) option"
    fix X' sb' fi' l' h' head' r'
    assume IH: "\<And>X' sb' fi' l' h' head' y. iw X' sb' fi' l' h' head' = Some y \<Longrightarrow>
        X' = X \<longrightarrow> sb' = sb \<longrightarrow> fi' = fi \<longrightarrow> h' = h \<longrightarrow> \<not> (\<exists>c \<in> S. l' = Field c)"
    assume eq: "(case load X' h' head' l' of
          None \<Rightarrow> Some (assign X' l' (Some fi') h' head')
        | Some x \<Rightarrow>
            if compare sb' (h' x) (h' fi')
            then Some (assign X' l' (Some fi') (h'(fi' := set_next X' (Some x) (h' fi'))) head')
            else iw X' sb' fi' (Field x) h' head') = Some r'"
    show "X' = X \<longrightarrow> sb' = sb \<longrightarrow> fi' = fi \<longrightarrow> h' = h \<longrightarrow> \<not> (\<exists>c \<in> S. l' = Field c)"
    proof (intro impI notI)
      assume e: "X' = X" "sb' = sb" "fi' = fi" "h' = h" and "\<exists>c \<in> S. l' = Field c"
      then obtain c where c: "c \<in> S" "l' = Field c" by blast
      obtain b where b: "b \<in> S" "get_next X (h c) = Some b" "\<not> compare sb (h b) (h fi)"
        using cyc [OF c(1)] by blast
      have "iw X sb fi (Field b) h head' = Some r'"
        using eq e c(2) b(2,3) by simp
      from IH [OF this] b(1) show False by simp
    qed
  qed
  then show False using a by simp
qed

text \<open>
  The first tick sorted by major faults leaves the records 4 and 2 as they are in the
  second example, and the dump of the second tick does not return: the dead record 4
  is linked behind record 1, whose address its stale \<^verbatim>\<open>d_next\<close> still names, and the
  walk for the dead record 2 goes round this cycle.
\<close>

lemma fault_dump_first_tick_links:
  "map_option (\<lambda>r. (store_of r 4, store_of r 2)) (fault_dump 1 ex_store [1] [4, 2] False)
     = Some (ex_store3 4, ex_store3 2)"
  by code_simp

lemma ex_store3_scan:
  "map_option (\<lambda>st. (sorted_head st, store_of st 1, store_of st 4, store_of st 2))
     (gscan S_next False False 1 [4, 2] [1] (dump_init ex_store3))
   = Some (Some 1, (ex_store3 1)\<lparr>d_min_fault := 50, d_maj_fault := 200\<rparr>,
           ex_store3 4, ex_store3 2)"
  by code_simp

lemma ex_store3_compare:
  "\<not> compare 1 ((ex_store3 1)\<lparr>d_min_fault := 50, d_maj_fault := 200\<rparr>) (ex_store3 4)"
  "\<not> compare 1 ((ex_store3 1)\<lparr>d_min_fault := 50, d_maj_fault := 200, d_next := Some 4\<rparr>)
        (ex_store3 2)"
  "\<not> compare 1 ((ex_store3 4)\<lparr>d_min_fault := - 100, d_maj_fault := - 100,
                              min_fault := 0, maj_fault := 0\<rparr>) (ex_store3 2)"
  by code_simp+

lemma fault_dump_second_tick_hangs:
  "fault_dump 1 ex_store3 [4, 2] [1] False = None"
proof -
  obtain st1 where g1: "gscan S_next False False 1 [4, 2] [1] (dump_init ex_store3) = Some st1"
    and hd: "sorted_head st1 = Some 1"
    and h1: "store_of st1 1 = (ex_store3 1)\<lparr>d_min_fault := 50, d_maj_fault := 200\<rparr>"
    and h4: "store_of st1 4 = ex_store3 4" and h2: "store_of st1 2 = ex_store3 2"
    using ex_store3_scan by auto
  let ?H = "store_of st1"
  have al: "\<not> alive (?H 4)" "\<not> alive (?H 2)" "d_next (?H 1) = None" "d_next (?H 4) = Some 1"
    "min_fault (?H 4) = 100" "maj_fault (?H 4) = 100"
    by (simp_all add: h1 h2 h4 ex_store3_def zero_fault_info_def del: One_nat_def)
  let ?H1 = "?H(1 := (?H 1)\<lparr>d_next := Some 4\<rparr>)"
  have w1: "insert_walk D_next 1 4 (Field 1) ?H (Some 1) = Some (?H1, Some 1)"
    by (subst insert_walk.simps) (simp add: al del: One_nat_def)
  have w0: "insert_walk D_next 1 4 Var ?H (Some 1) = Some (?H1, Some 1)"
    by (subst insert_walk.simps) (simp add: h1 h4 ex_store3_compare(1) w1 [unfolded h1] del: One_nat_def)
  define H2 where "H2 = ?H1(4 := (?H1 4)\<lparr>d_min_fault := - min_fault (?H1 4),
      d_maj_fault := - maj_fault (?H1 4), min_fault := 0, maj_fault := 0\<rparr>)"
  have r1: "H2 1 = (ex_store3 1)\<lparr>d_min_fault := 50, d_maj_fault := 200, d_next := Some 4\<rparr>"
    by (simp add: H2_def h1 del: One_nat_def)
  have r4: "H2 4 = (ex_store3 4)\<lparr>d_min_fault := - 100, d_maj_fault := - 100,
      min_fault := 0, maj_fault := 0\<rparr>"
    using al(5,6) by (simp add: H2_def h4 del: One_nat_def)
  have r2: "H2 2 = ex_store3 2" by (simp add: H2_def h2 del: One_nat_def)
  have n1: "d_next (H2 1) = Some 4" by (simp add: H2_def del: One_nat_def)
  have n4: "d_next (H2 4) = Some 1" using al(4) by (simp add: H2_def del: One_nat_def)
  have c1: "\<not> compare 1 (H2 1) (H2 2)" unfolding r1 r2 by (rule ex_store3_compare(2))
  have c4: "\<not> compare 1 (H2 4) (H2 2)" unfolding r4 r2 by (rule ex_store3_compare(3))
  have cyc: "insert_walk D_next 1 2 (Field 1) H2 (Some 1) = None"
  proof (rule insert_walk_cycle [where S = "{1, 4}"])
    fix a :: addr assume "a \<in> {1, 4}"
    then show "\<exists>b \<in> {1, 4}. get_next D_next (H2 a) = Some b \<and> \<not> compare 1 (H2 b) (H2 2)"
      using n1 n4 c1 c4 by (auto simp del: One_nat_def)
  qed simp
  have w2: "insert_walk D_next 1 2 Var H2 (Some 1) = None"
    by (subst insert_walk.simps) (simp only: load.simps option.case c1 if_False cyc)
  have a2: "\<not> alive (H2 2)" using al(2) by (simp add: H2_def del: One_nat_def)
  have gd: "gdied False 1 [4, 2] st1 = None"
    apply (simp only: gdied.simps al(1) if_False hd w0 option.case prod.case)
    apply (simp only: H2_def [symmetric])
    apply (simp add: a2 w2 del: One_nat_def)
    done
  show ?thesis
    by (simp only: fault_dump_def dump_scan_gscan dump_died_gdied g1 gd option.case)
qed

subsection \<open>Negative values in the formatter\<close>

lemma sint_neg_int64:
  assumes "0 \<le> sint (c :: int64)"
  shows "sint (- c) = - sint c"
proof -
  have "sint c < 9223372036854775808" by (rule sint_int64_less)
  then have "signed_take_bit 63 (- sint c) = - sint c"
    using assms by (simp add: signed_take_bit_int_eq_self)
  then show ?thesis by (simp add: sint_word_ariths)
qed

lemma int64_to_str_clamp:
  "sint val < 0 \<Longrightarrow> int64_to_str val buflen = int64_to_str 0 buflen"
  by (simp add: int64_to_str_def)

lemma int64_to_str_0: "int64_to_str 0 12 = ''     0 ''"
  by (simp add: int64_to_str_12 fmt_0)

lemma int64_to_str_nonpos: "sint val \<le> 0 \<Longrightarrow> int64_to_str val 12 = ''     0 ''"
  by (simp add: int64_to_str_12 fmt_0 Let_def)

text \<open>
  Claim C10.  The formatter clamps a negative value to zero before anything else, so for
  every negative input and every buffer length its output is the output for 0, which in
  the twelve-byte buffers of the dumps is five blanks, the digit 0 and the blank unit.
  Hence a negative delta is printed as 0 in the delta columns of a row (cells 2 and 3 of
  the five numeric cells), and so is the negated counter of a dead process.
\<close>

theorem int64_to_str_negative_is_zero:
  "(sint val < 0 \<longrightarrow>
      int64_to_str val buflen = int64_to_str 0 buflen \<and> int64_to_str val 12 = ''     0 '')
   \<and> (sint (d_maj_fault r) < 0 \<longrightarrow> fault_line False r ! 2 = ''     0 '')
   \<and> (sint (d_min_fault r) < 0 \<longrightarrow> fault_line False r ! 3 = ''     0 '')
   \<and> (0 \<le> sint c \<longrightarrow> int64_to_str (- c) 12 = ''     0 '')"
proof (intro conjI impI)
  assume "sint val < 0"
  then show "int64_to_str val buflen = int64_to_str 0 buflen" by (rule int64_to_str_clamp)
next
  assume "sint val < 0"
  then show "int64_to_str val 12 = ''     0 ''" by (simp add: int64_to_str_nonpos)
next
  assume "sint (d_maj_fault r) < 0"
  then have "int64_to_str (d_maj_fault r) 12 = ''     0 ''" by (simp add: int64_to_str_nonpos)
  then show "fault_line False r ! 2 = ''     0 ''"
    by (simp only: fault_line_def if_False nth_Cons_numeral nth_Cons_0 numeral_2_eq_2
        nth_Cons_Suc)
next
  assume "sint (d_min_fault r) < 0"
  then have "int64_to_str (d_min_fault r) 12 = ''     0 ''" by (simp add: int64_to_str_nonpos)
  then show "fault_line False r ! 3 = ''     0 ''"
    by (simp only: fault_line_def if_False numeral_3_eq_3 nth_Cons_0 nth_Cons_Suc)
next
  assume "0 \<le> sint c"
  then have "sint (- c) \<le> 0" by (simp add: sint_neg_int64)
  then show "int64_to_str (- c) 12 = ''     0 ''" by (rule int64_to_str_nonpos)
qed

text \<open>
  The hypotheses of C10 hold for the value -5 and for the row of a dead process whose
  last counters were major 5 and minor 20.
\<close>

theorem int64_to_str_negative_is_zero_witness:
  "sint (- 5 :: int64) < 0
   \<and> int64_to_str (- 5) 12 = ''     0 '' \<and> int64_to_str (- 5) 12 = int64_to_str 0 12
   \<and> sint (d_maj_fault (zero_fault_info\<lparr>d_min_fault := - 20, d_maj_fault := - 5\<rparr>)) < 0
   \<and> sint (d_min_fault (zero_fault_info\<lparr>d_min_fault := - 20, d_maj_fault := - 5\<rparr>)) < 0
   \<and> fault_line False (zero_fault_info\<lparr>d_min_fault := - 20, d_maj_fault := - 5\<rparr>) ! 2
       = ''     0 ''
   \<and> fault_line False (zero_fault_info\<lparr>d_min_fault := - 20, d_maj_fault := - 5\<rparr>) ! 3
       = ''     0 ''
   \<and> 0 \<le> sint (20 :: int64) \<and> int64_to_str (- 20) 12 = ''     0 ''"
proof -
  have a: "sint (- 5 :: int64) < 0" "sint (- 20 :: int64) < 0" "0 \<le> sint (20 :: int64)"
    by simp_all
  show ?thesis
    using int64_to_str_negative_is_zero
      [of "- 5" 12 "zero_fault_info\<lparr>d_min_fault := - 20, d_maj_fault := - 5\<rparr>" 20] a
    by (simp add: int64_to_str_0)
qed
end
